theory Spec2Isabelle
  imports Main "HOL-Library.Word"
begin

section \<open>The m68k binding of the emulation engine (qemu/target/m68k/unicorn.c)\<close>

text \<open>
  The file \<^verbatim>\<open>unicorn.c\<close> maps the engine's register identifiers onto the m68k CPU state
  and registers the architecture's lifecycle hooks. Its functions are embedded below, one
  HOL function per C function, with the C state passed in and returned. What the file
  takes from headers that are not part of it (the register enumeration, the width-check
  macro, the status-register helper, the loop-break helper) is either a parameter or a
  definition marked as modelled from the specification.
\<close>

subsection \<open>Data\<close>

type_synonym uint32_t = "32 word"
type_synonym uint64_t = "64 word"

text \<open>
  Modelled from the spec: \<^verbatim>\<open>uc_err\<close>, the engine's error enumeration, is declared in
  the public header, which is not part of this file. This file names two of its values,
  \<^verbatim>\<open>UC_ERR_OK\<close> (success; zero, so that \<^verbatim>\<open>if (err)\<close> tests for anything else) and
  \<^verbatim>\<open>UC_ERR_ARG\<close> (the specification's \<^verbatim>\<open>INVALID_ARGUMENT\<close>, section 6). Every other
  enumerator is \<open>UC_ERR_OTHER n\<close>.
\<close>

datatype uc_err = UC_ERR_OK | UC_ERR_ARG | UC_ERR_OTHER nat

text \<open>
  \<^verbatim>\<open>enum uc_m68k_reg\<close>: the register identifiers. The enumeration is declared in the public
  header, so its values are a parameter of every accessor: the first and last identifier
  of the address range and of the data range, and the two singletons.
\<close>

record uc_m68k_reg =
  UC_M68K_REG_A0 :: nat
  UC_M68K_REG_A7 :: nat
  UC_M68K_REG_D0 :: nat
  UC_M68K_REG_D7 :: nat
  UC_M68K_REG_PC :: nat
  UC_M68K_REG_SR :: nat

text \<open>
  What the specification says of the enumeration (section 6): eight contiguous address
  identifiers, eight contiguous data identifiers, one identifier each for the program
  counter and the status register, and every identifier maps to exactly one field.
\<close>

definition in_aregs :: "uc_m68k_reg \<Rightarrow> nat \<Rightarrow> bool" where
  "in_aregs R regid \<longleftrightarrow> UC_M68K_REG_A0 R \<le> regid \<and> regid \<le> UC_M68K_REG_A7 R"

definition in_dregs :: "uc_m68k_reg \<Rightarrow> nat \<Rightarrow> bool" where
  "in_dregs R regid \<longleftrightarrow> UC_M68K_REG_D0 R \<le> regid \<and> regid \<le> UC_M68K_REG_D7 R"

definition regs_wf :: "uc_m68k_reg \<Rightarrow> bool" where
  "regs_wf R \<longleftrightarrow>
     UC_M68K_REG_A7 R = UC_M68K_REG_A0 R + 7 \<and>
     UC_M68K_REG_D7 R = UC_M68K_REG_D0 R + 7 \<and>
     (UC_M68K_REG_A7 R < UC_M68K_REG_D0 R \<or> UC_M68K_REG_D7 R < UC_M68K_REG_A0 R) \<and>
     \<not> in_aregs R (UC_M68K_REG_PC R) \<and> \<not> in_dregs R (UC_M68K_REG_PC R) \<and>
     \<not> in_aregs R (UC_M68K_REG_SR R) \<and> \<not> in_dregs R (UC_M68K_REG_SR R) \<and>
     UC_M68K_REG_PC R \<noteq> UC_M68K_REG_SR R"

text \<open>
  Modelled from the spec: \<^verbatim>\<open>CPUM68KState\<close> is declared in the architecture's header,
  which is not part of this file. The record has the fields that this file reads or
  writes. The specification (sections 3, 6) gives the state eight address registers and
  eight data registers, a program counter and a status register, each a 4-byte field;
  the accessors below move each of them as a \<^verbatim>\<open>uint32_t\<close>. The two register arrays are
  lists; that they have eight entries each is \<open>env_wf\<close>. Every other field of the C
  struct is in the record's extension, which the functions below leave alone.
\<close>

record CPUM68KState =
  dregs :: "uint32_t list"
  aregs :: "uint32_t list"
  pc :: uint32_t
  sr :: uint32_t

definition env_wf :: "'m CPUM68KState_scheme \<Rightarrow> bool" where
  "env_wf env \<longleftrightarrow> length (aregs env) = 8 \<and> length (dregs env) = 8"

text \<open>
  \<^verbatim>\<open>struct uc_struct\<close>: the engine, with the fields that this file uses. \<open>cpu_env\<close> is
  the live CPU state (\<^verbatim>\<open>uc->cpu->env_ptr\<close>, the same object as
  \<^verbatim>\<open>M68K_CPU(uc->cpu)->env\<close>), \<open>cpu_neg_tlb\<close> the per-mode translation caches
  (\<^verbatim>\<open>cpu->neg.tlb\<close>, of a type this file does not look into), \<open>quit_request\<close> the flag
  of that name, and \<open>break_translation_loop_calls\<close> the number of calls of
  \<^verbatim>\<open>break_translation_loop(uc)\<close> made so far. Every other field is in the record's
  extension.
\<close>

record ('m, 'tlb) uc_struct =
  cpu_env :: "'m CPUM68KState_scheme"
  cpu_neg_tlb :: 'tlb
  quit_request :: bool
  break_translation_loop_calls :: nat

text \<open>\<^verbatim>\<open>struct uc_context\<close>: a snapshot; \<open>data\<close> holds a CPU state.\<close>

record 'm uc_context =
  data :: "'m CPUM68KState_scheme"

subsection \<open>What the file takes from elsewhere\<close>

text \<open>
  Modelled from the spec: the macro \<^verbatim>\<open>CHECK_REG_TYPE(type)\<close> is defined in a header that
  is not part of this file. The specification (sections 4.1, 6, 7) says that the declared
  buffer size must equal the register's width, and that a mismatch is the failure
  \<^verbatim>\<open>INVALID_ARGUMENT\<close>, with nothing read or written. The macro either leaves the
  enclosing function with an error (\<open>Inl\<close>) or sets \<^verbatim>\<open>ret\<close> (\<open>Inr\<close>). The batch functions
  pass no size at all when the caller gave no array of sizes (\<^verbatim>\<open>NULL\<close>, here \<open>None\<close>);
  then no size is declared and there is nothing to compare.
\<close>

definition CHECK_REG_TYPE :: "nat \<Rightarrow> nat option \<Rightarrow> uc_err + uc_err" where
  "CHECK_REG_TYPE width sz =
     (case sz of
        None \<Rightarrow> Inr UC_ERR_OK
      | Some n \<Rightarrow> if n \<noteq> width then Inl UC_ERR_ARG else Inr UC_ERR_OK)"

text \<open>
  Modelled from the spec: \<^verbatim>\<open>cpu_m68k_set_sr\<close> is the architecture's routine for the status
  register and is not part of this file. The specification (sections 4.1, 8) says that a
  write of the status register stores the canonicalized form of the value, and that the
  identifier maps to one field. The canonicalization itself is the parameter \<open>canon\<close>.
\<close>

definition cpu_m68k_set_sr ::
  "(uint32_t \<Rightarrow> uint32_t) \<Rightarrow> 'm CPUM68KState_scheme \<Rightarrow> uint32_t \<Rightarrow> 'm CPUM68KState_scheme" where
  "cpu_m68k_set_sr canon env val = env\<lparr>sr := canon val\<rparr>"

text \<open>
  Modelled from the spec: \<^verbatim>\<open>break_translation_loop\<close> is the engine's helper that signals
  the translation-loop controller (section 4.3) and is not part of this file. Each call
  is one signal; the model counts them.
\<close>

definition break_translation_loop ::
  "('m, 'tlb, 'u) uc_struct_scheme \<Rightarrow> ('m, 'tlb, 'u) uc_struct_scheme" where
  "break_translation_loop uc =
     uc\<lparr>break_translation_loop_calls := Suc (break_translation_loop_calls uc)\<rparr>"

subsection \<open>Program-counter hooks and reset\<close>

text \<open>\<^verbatim>\<open>m68k_set_pc\<close>: the 64-bit address is stored in the 32-bit field.\<close>

definition m68k_set_pc ::
  "('m, 'tlb, 'u) uc_struct_scheme \<Rightarrow> uint64_t \<Rightarrow> ('m, 'tlb, 'u) uc_struct_scheme" where
  "m68k_set_pc uc address = uc\<lparr>cpu_env := (cpu_env uc)\<lparr>pc := ucast address\<rparr>\<rparr>"

text \<open>\<^verbatim>\<open>m68k_get_pc\<close>: the 32-bit field, widened to the 64-bit result.\<close>

definition m68k_get_pc :: "('m, 'tlb, 'u) uc_struct_scheme \<Rightarrow> uint64_t" where
  "m68k_get_pc uc = ucast (pc (cpu_env uc))"

text \<open>
  \<^verbatim>\<open>m68k_reg_reset\<close>: both \<^verbatim>\<open>memset\<close> calls clear a whole array
  (\<^verbatim>\<open>sizeof(env->aregs)\<close> bytes), then the program counter is cleared.
\<close>

definition m68k_reg_reset ::
  "('m, 'tlb, 'u) uc_struct_scheme \<Rightarrow> ('m, 'tlb, 'u) uc_struct_scheme" where
  "m68k_reg_reset uc =
     (let env = cpu_env uc;
          env = env\<lparr>aregs := replicate (length (aregs env)) 0\<rparr>;
          env = env\<lparr>dregs := replicate (length (dregs env)) 0\<rparr>;
          env = env\<lparr>pc := 0\<rparr>
      in uc\<lparr>cpu_env := env\<rparr>)"

subsection \<open>Typed accessor\<close>

text \<open>
  \<^verbatim>\<open>reg_read\<close>: \<open>val\<close> is the content of the caller's buffer before the call, the second
  component of the result its content after. \<^verbatim>\<open>ret\<close> starts as \<^verbatim>\<open>UC_ERR_ARG\<close> and the
  \<^verbatim>\<open>default\<close> label leaves it so.
\<close>

definition reg_read ::
  "uc_m68k_reg \<Rightarrow> 'm CPUM68KState_scheme \<Rightarrow> nat \<Rightarrow> uint32_t \<Rightarrow> nat option
     \<Rightarrow> uc_err \<times> uint32_t" where
  "reg_read R env regid val sz =
     (if regid \<ge> UC_M68K_REG_A0 R \<and> regid \<le> UC_M68K_REG_A7 R then
        (case CHECK_REG_TYPE 4 sz of
           Inl e \<Rightarrow> (e, val)
         | Inr ret \<Rightarrow> (ret, aregs env ! (regid - UC_M68K_REG_A0 R)))
      else if regid \<ge> UC_M68K_REG_D0 R \<and> regid \<le> UC_M68K_REG_D7 R then
        (case CHECK_REG_TYPE 4 sz of
           Inl e \<Rightarrow> (e, val)
         | Inr ret \<Rightarrow> (ret, dregs env ! (regid - UC_M68K_REG_D0 R)))
      else if regid = UC_M68K_REG_PC R then
        (case CHECK_REG_TYPE 4 sz of
           Inl e \<Rightarrow> (e, val)
         | Inr ret \<Rightarrow> (ret, pc env))
      else if regid = UC_M68K_REG_SR R then
        (case CHECK_REG_TYPE 4 sz of
           Inl e \<Rightarrow> (e, val)
         | Inr ret \<Rightarrow> (ret, sr env))
      else (UC_ERR_ARG, val))"

text \<open>
  \<^verbatim>\<open>reg_write\<close>: returns the error code, the state and the flag \<^verbatim>\<open>*setpc\<close> after the
  call.
\<close>

definition reg_write ::
  "uc_m68k_reg \<Rightarrow> (uint32_t \<Rightarrow> uint32_t) \<Rightarrow> 'm CPUM68KState_scheme \<Rightarrow> nat \<Rightarrow> uint32_t
     \<Rightarrow> nat option \<Rightarrow> int \<Rightarrow> uc_err \<times> 'm CPUM68KState_scheme \<times> int" where
  "reg_write R canon env regid val sz setpc =
     (if regid \<ge> UC_M68K_REG_A0 R \<and> regid \<le> UC_M68K_REG_A7 R then
        (case CHECK_REG_TYPE 4 sz of
           Inl e \<Rightarrow> (e, env, setpc)
         | Inr ret \<Rightarrow>
             (ret, env\<lparr>aregs := (aregs env)[regid - UC_M68K_REG_A0 R := val]\<rparr>, setpc))
      else if regid \<ge> UC_M68K_REG_D0 R \<and> regid \<le> UC_M68K_REG_D7 R then
        (case CHECK_REG_TYPE 4 sz of
           Inl e \<Rightarrow> (e, env, setpc)
         | Inr ret \<Rightarrow>
             (ret, env\<lparr>dregs := (dregs env)[regid - UC_M68K_REG_D0 R := val]\<rparr>, setpc))
      else if regid = UC_M68K_REG_PC R then
        (case CHECK_REG_TYPE 4 sz of
           Inl e \<Rightarrow> (e, env, setpc)
         | Inr ret \<Rightarrow> (ret, env\<lparr>pc := val\<rparr>, 1))
      else if regid = UC_M68K_REG_SR R then
        (case CHECK_REG_TYPE 4 sz of
           Inl e \<Rightarrow> (e, env, setpc)
         | Inr ret \<Rightarrow> (ret, cpu_m68k_set_sr canon env val, setpc))
      else (UC_ERR_ARG, env, setpc))"

subsection \<open>Batch dispatcher\<close>

text \<open>
  The arrays \<^verbatim>\<open>regs\<close>, \<^verbatim>\<open>vals\<close> and \<^verbatim>\<open>sizes\<close> are lists; \<^verbatim>\<open>sizes\<close> may be \<^verbatim>\<open>NULL\<close>
  (\<open>None\<close>). \<open>vals\<close> holds the content of the buffer behind each pointer, one buffer per
  entry. \<open>size_at sizes i\<close> is \<^verbatim>\<open>sizes ? sizes + i : NULL\<close>. The \<^verbatim>\<open>for\<close> loops are the
  functions \<open>reg_read_loop\<close> and \<open>reg_write_loop\<close>, which take the loop variable \<open>i\<close>;
  the batch functions start them at 0. \<^verbatim>\<open>count\<close> is a C \<^verbatim>\<open>int\<close>.
\<close>

definition size_at :: "nat list option \<Rightarrow> nat \<Rightarrow> nat option" where
  "size_at sizes i = (case sizes of None \<Rightarrow> None | Some ss \<Rightarrow> Some (ss ! i))"

function reg_read_loop ::
  "uc_m68k_reg \<Rightarrow> 'm CPUM68KState_scheme \<Rightarrow> nat list \<Rightarrow> uint32_t list \<Rightarrow> nat list option
     \<Rightarrow> int \<Rightarrow> nat \<Rightarrow> uc_err \<times> uint32_t list" where
  "reg_read_loop R env regs vals sizes count i =
     (if int i < count then
        (let regid = regs ! i;
             val = vals ! i;
             (err, val') = reg_read R env regid val (size_at sizes i)
         in if err \<noteq> UC_ERR_OK then (err, vals[i := val'])
            else reg_read_loop R env regs (vals[i := val']) sizes count (i + 1))
      else (UC_ERR_OK, vals))"
  by pat_completeness auto
termination
  by (relation "measure (\<lambda>(R, env, regs, vals, sizes, count, i). nat (count - int i))") auto

definition reg_read_batch ::
  "uc_m68k_reg \<Rightarrow> 'm CPUM68KState_scheme \<Rightarrow> nat list \<Rightarrow> uint32_t list \<Rightarrow> nat list option
     \<Rightarrow> int \<Rightarrow> uc_err \<times> uint32_t list" where
  "reg_read_batch R env regs vals sizes count = reg_read_loop R env regs vals sizes count 0"

function reg_write_loop ::
  "uc_m68k_reg \<Rightarrow> (uint32_t \<Rightarrow> uint32_t) \<Rightarrow> 'm CPUM68KState_scheme \<Rightarrow> nat list
     \<Rightarrow> uint32_t list \<Rightarrow> nat list option \<Rightarrow> int \<Rightarrow> int \<Rightarrow> nat
     \<Rightarrow> uc_err \<times> 'm CPUM68KState_scheme \<times> int" where
  "reg_write_loop R canon env regs vals sizes count setpc i =
     (if int i < count then
        (let regid = regs ! i;
             val = vals ! i;
             (err, env', setpc') = reg_write R canon env regid val (size_at sizes i) setpc
         in if err \<noteq> UC_ERR_OK then (err, env', setpc')
            else reg_write_loop R canon env' regs vals sizes count setpc' (i + 1))
      else (UC_ERR_OK, env, setpc))"
  by pat_completeness auto
termination
  by (relation
      "measure (\<lambda>(R, canon, env, regs, vals, sizes, count, setpc, i). nat (count - int i))")
    auto

definition reg_write_batch ::
  "uc_m68k_reg \<Rightarrow> (uint32_t \<Rightarrow> uint32_t) \<Rightarrow> 'm CPUM68KState_scheme \<Rightarrow> nat list
     \<Rightarrow> uint32_t list \<Rightarrow> nat list option \<Rightarrow> int \<Rightarrow> int
     \<Rightarrow> uc_err \<times> 'm CPUM68KState_scheme \<times> int" where
  "reg_write_batch R canon env regs vals sizes count setpc =
     reg_write_loop R canon env regs vals sizes count setpc 0"

subsection \<open>Entry points on live state and on a context snapshot\<close>

definition m68k_reg_read ::
  "uc_m68k_reg \<Rightarrow> ('m, 'tlb, 'u) uc_struct_scheme \<Rightarrow> nat list \<Rightarrow> uint32_t list
     \<Rightarrow> nat list option \<Rightarrow> int \<Rightarrow> uc_err \<times> uint32_t list" where
  "m68k_reg_read R uc regs vals sizes count =
     reg_read_batch R (cpu_env uc) regs vals sizes count"

text \<open>
  \<^verbatim>\<open>m68k_reg_write\<close>: the writes of the batch stay in the live state also when the batch
  fails; the quit flag and the loop break come after the error return.
\<close>

definition m68k_reg_write ::
  "uc_m68k_reg \<Rightarrow> (uint32_t \<Rightarrow> uint32_t) \<Rightarrow> ('m, 'tlb, 'u) uc_struct_scheme \<Rightarrow> nat list
     \<Rightarrow> uint32_t list \<Rightarrow> nat list option \<Rightarrow> int
     \<Rightarrow> uc_err \<times> ('m, 'tlb, 'u) uc_struct_scheme" where
  "m68k_reg_write R canon uc regs vals sizes count =
     (let setpc = 0;
          (err, env', setpc) = reg_write_batch R canon (cpu_env uc) regs vals sizes count setpc;
          uc = uc\<lparr>cpu_env := env'\<rparr>
      in if err \<noteq> UC_ERR_OK then (err, uc)
         else if setpc \<noteq> 0 then
           (UC_ERR_OK, break_translation_loop (uc\<lparr>quit_request := True\<rparr>))
         else (UC_ERR_OK, uc))"

definition m68k_context_reg_read ::
  "uc_m68k_reg \<Rightarrow> ('m, 'c) uc_context_scheme \<Rightarrow> nat list \<Rightarrow> uint32_t list
     \<Rightarrow> nat list option \<Rightarrow> int \<Rightarrow> uc_err \<times> uint32_t list" where
  "m68k_context_reg_read R ctx regs vals sizes count =
     reg_read_batch R (data ctx) regs vals sizes count"

definition m68k_context_reg_write ::
  "uc_m68k_reg \<Rightarrow> (uint32_t \<Rightarrow> uint32_t) \<Rightarrow> ('m, 'c) uc_context_scheme \<Rightarrow> nat list
     \<Rightarrow> uint32_t list \<Rightarrow> nat list option \<Rightarrow> int
     \<Rightarrow> uc_err \<times> ('m, 'c) uc_context_scheme" where
  "m68k_context_reg_write R canon ctx regs vals sizes count =
     (let setpc = 0;
          (err, env', setpc) = reg_write_batch R canon (data ctx) regs vals sizes count setpc
      in (err, ctx\<lparr>data := env'\<rparr>))"

subsection \<open>The engine and a snapshot side by side\<close>

text \<open>
  Modelled from the spec: the engine core, which is not part of this file, hands a register
  request to this binding with either the live state or a context snapshot (section 2).
  \<^verbatim>\<open>m68k_reg_write\<close> receives the engine, \<^verbatim>\<open>m68k_context_reg_write\<close> receives a
  snapshot and nothing of the engine. To say what a call does to the object it does not
  receive, a system is an engine together with a snapshot, and each entry point is lifted
  to it.
\<close>

definition live_reg_write ::
  "uc_m68k_reg \<Rightarrow> (uint32_t \<Rightarrow> uint32_t)
     \<Rightarrow> ('m, 'tlb, 'u) uc_struct_scheme \<times> ('m, 'c) uc_context_scheme \<Rightarrow> nat list
     \<Rightarrow> uint32_t list \<Rightarrow> nat list option \<Rightarrow> int
     \<Rightarrow> uc_err \<times> ('m, 'tlb, 'u) uc_struct_scheme \<times> ('m, 'c) uc_context_scheme" where
  "live_reg_write R canon sys regs vals sizes count =
     (case sys of (uc, ctx) \<Rightarrow>
        (case m68k_reg_write R canon uc regs vals sizes count of
           (err, uc') \<Rightarrow> (err, uc', ctx)))"

definition context_reg_write ::
  "uc_m68k_reg \<Rightarrow> (uint32_t \<Rightarrow> uint32_t)
     \<Rightarrow> ('m, 'tlb, 'u) uc_struct_scheme \<times> ('m, 'c) uc_context_scheme \<Rightarrow> nat list
     \<Rightarrow> uint32_t list \<Rightarrow> nat list option \<Rightarrow> int
     \<Rightarrow> uc_err \<times> ('m, 'tlb, 'u) uc_struct_scheme \<times> ('m, 'c) uc_context_scheme" where
  "context_reg_write R canon sys regs vals sizes count =
     (case sys of (uc, ctx) \<Rightarrow>
        (case m68k_context_reg_write R canon ctx regs vals sizes count of
           (err, ctx') \<Rightarrow> (err, uc, ctx')))"

subsection \<open>A concrete enumeration and concrete states\<close>

text \<open>
  An enumeration that satisfies \<open>regs_wf\<close> (address identifiers 1 to 8, data identifiers
  9 to 16, status register 17, program counter 18), a CPU state with all registers zero,
  an engine and a snapshot that hold it.
\<close>

definition m68k_regs :: uc_m68k_reg where
  "m68k_regs = \<lparr>UC_M68K_REG_A0 = 1, UC_M68K_REG_A7 = 8, UC_M68K_REG_D0 = 9,
     UC_M68K_REG_D7 = 16, UC_M68K_REG_PC = 18, UC_M68K_REG_SR = 17\<rparr>"

definition env0 :: CPUM68KState where
  "env0 = \<lparr>dregs = [0, 0, 0, 0, 0, 0, 0, 0], aregs = [0, 0, 0, 0, 0, 0, 0, 0], pc = 0, sr = 0\<rparr>"

definition uc0 :: "(unit, unit) uc_struct" where
  "uc0 = \<lparr>cpu_env = env0, cpu_neg_tlb = (), quit_request = False,
     break_translation_loop_calls = 0\<rparr>"

definition ctx0 :: "unit uc_context" where
  "ctx0 = \<lparr>data = env0\<rparr>"

text \<open>An engine after some work: registers set, two cache entries, the quit flag raised.\<close>

definition uc1 :: "(unit, nat list) uc_struct" where
  "uc1 = \<lparr>cpu_env = \<lparr>dregs = [1, 2, 3, 4, 5, 6, 7, 8],
       aregs = [0x11, 0x22, 0x33, 0x44, 0x55, 0x66, 0x77, 0x88], pc = 0x1000, sr = 0x2700\<rparr>,
     cpu_neg_tlb = [11, 22], quit_request = True, break_translation_loop_calls = 3\<rparr>"

section \<open>Auxiliary facts\<close>

subsection \<open>The accessor\<close>

declare reg_read_loop.simps [simp del] reg_write_loop.simps [simp del]

lemma CHECK_REG_TYPE_cases:
  "CHECK_REG_TYPE w sz = Inl UC_ERR_ARG \<or> CHECK_REG_TYPE w sz = Inr UC_ERR_OK"
  by (simp add: CHECK_REG_TYPE_def split: option.split)

lemma reg_read_err:
  "fst (reg_read R env regid val sz) = UC_ERR_OK \<or>
   fst (reg_read R env regid val sz) = UC_ERR_ARG"
  using CHECK_REG_TYPE_cases [of 4 sz] by (auto simp: reg_read_def)

lemma reg_write_err:
  "fst (reg_write R canon env regid val sz setpc) = UC_ERR_OK \<or>
   fst (reg_write R canon env regid val sz setpc) = UC_ERR_ARG"
  using CHECK_REG_TYPE_cases [of 4 sz] by (auto simp: reg_write_def)

lemma reg_read_fail_frame:
  "reg_read R env regid val sz = (e, val') \<Longrightarrow> e \<noteq> UC_ERR_OK \<Longrightarrow> val' = val"
  using CHECK_REG_TYPE_cases [of 4 sz] by (auto simp: reg_read_def split: if_splits)

lemma reg_write_fail_frame:
  "reg_write R canon env regid val sz setpc = (e, env', setpc') \<Longrightarrow> e \<noteq> UC_ERR_OK
     \<Longrightarrow> env' = env \<and> setpc' = setpc"
  using CHECK_REG_TYPE_cases [of 4 sz] by (auto simp: reg_write_def split: if_splits)

subsection \<open>One turn of the write loop\<close>

lemma reg_write_loop_done:
  "\<not> int i < count \<Longrightarrow>
   reg_write_loop R canon env regs vals sizes count setpc i = (UC_ERR_OK, env, setpc)"
  by (simp add: reg_write_loop.simps [of _ _ _ _ _ _ _ _ i])

lemma reg_write_loop_fail:
  "int i < count \<Longrightarrow>
   reg_write R canon env (regs ! i) (vals ! i) (size_at sizes i) setpc = (e, env', setpc') \<Longrightarrow>
   e \<noteq> UC_ERR_OK \<Longrightarrow>
   reg_write_loop R canon env regs vals sizes count setpc i = (e, env', setpc')"
  by (simp add: reg_write_loop.simps [of _ _ _ _ _ _ _ _ i])

lemma reg_write_loop_step:
  "int i < count \<Longrightarrow>
   reg_write R canon env (regs ! i) (vals ! i) (size_at sizes i) setpc
     = (UC_ERR_OK, env', setpc') \<Longrightarrow>
   reg_write_loop R canon env regs vals sizes count setpc i
     = reg_write_loop R canon env' regs vals sizes count setpc' (Suc i)"
  by (simp add: reg_write_loop.simps [of _ _ _ _ _ _ _ _ i])

lemma reg_write_loop_err:
  "fst (reg_write_loop R canon env regs vals sizes count setpc i) = UC_ERR_OK \<or>
   fst (reg_write_loop R canon env regs vals sizes count setpc i) = UC_ERR_ARG"
proof (induction "nat count - i" arbitrary: i env setpc)
  case 0
  then have "\<not> int i < count" by linarith
  then show ?case by (simp add: reg_write_loop_done)
next
  case (Suc n)
  then have lt: "int i < count" and n: "n = nat count - Suc i" by linarith+
  obtain e env' s' where
    w: "reg_write R canon env (regs ! i) (vals ! i) (size_at sizes i) setpc = (e, env', s')"
    by (metis prod_cases3)
  show ?case
  proof (cases "e = UC_ERR_OK")
    case True
    with Suc.hyps(1) [OF n, of env' s'] reg_write_loop_step [OF lt, of R canon env regs vals sizes setpc env' s'] w
    show ?thesis by simp
  next
    case False
    with reg_write_err [of R canon env "regs ! i" "vals ! i" "size_at sizes i" setpc]
      reg_write_loop_fail [OF lt w] w
    show ?thesis by simp
  qed
qed

text \<open>A batch whose first k entries succeed goes on from entry k.\<close>

lemma reg_write_loop_prefix:
  "i \<le> k \<Longrightarrow> int k < count \<Longrightarrow>
   reg_write_loop R canon env regs vals sizes (int k) setpc i = (UC_ERR_OK, env_k, s_k) \<Longrightarrow>
   reg_write_loop R canon env regs vals sizes count setpc i
     = reg_write_loop R canon env_k regs vals sizes count s_k k"
proof (induction "k - i" arbitrary: i env setpc)
  case 0
  then have ik: "i = k" by simp
  with 0 show ?case by (simp add: reg_write_loop_done)
next
  case (Suc n)
  then have lt: "int i < int k" and lt': "int i < count" and n: "n = k - Suc i"
    and le: "Suc i \<le> k" by linarith+
  obtain e env' s' where
    w: "reg_write R canon env (regs ! i) (vals ! i) (size_at sizes i) setpc = (e, env', s')"
    by (metis prod_cases3)
  show ?case
  proof (cases "e = UC_ERR_OK")
    case True
    with w have w': "reg_write R canon env (regs ! i) (vals ! i) (size_at sizes i) setpc
      = (UC_ERR_OK, env', s')" by simp
    from Suc.prems(3) reg_write_loop_step [OF lt w']
    have "reg_write_loop R canon env' regs vals sizes (int k) s' (Suc i)
      = (UC_ERR_OK, env_k, s_k)" by simp
    from Suc.hyps(1) [OF n le Suc.prems(2) this] reg_write_loop_step [OF lt' w']
    show ?thesis by simp
  next
    case False
    from reg_write_loop_fail [OF lt w False] Suc.prems(3) False
    show ?thesis by simp
  qed
qed

text \<open>The batch over k + 1 entries is the batch over k entries, then entry k.\<close>

lemma reg_write_loop_Suc:
  "i \<le> k \<Longrightarrow>
   reg_write_loop R canon env regs vals sizes (int (Suc k)) setpc i
     = (case reg_write_loop R canon env regs vals sizes (int k) setpc i of
          (err, env_k, s_k) \<Rightarrow>
            if err \<noteq> UC_ERR_OK then (err, env_k, s_k)
            else reg_write R canon env_k (regs ! k) (vals ! k) (size_at sizes k) s_k)"
proof (induction "k - i" arbitrary: i env setpc)
  case 0
  then have ik: "i = k" by simp
  obtain e env' s' where
    w: "reg_write R canon env (regs ! k) (vals ! k) (size_at sizes k) setpc = (e, env', s')"
    by (metis prod_cases3)
  have lt: "int k < int (Suc k)" by simp
  show ?case
  proof (cases "e = UC_ERR_OK")
    case True
    with w reg_write_loop_step [OF lt, of R canon env regs vals sizes setpc env' s'] ik
    show ?thesis by (simp add: reg_write_loop_done)
  next
    case False
    with w reg_write_loop_fail [OF lt w False] ik
    show ?thesis by (simp add: reg_write_loop_done)
  qed
next
  case (Suc n)
  then have lt: "int i < int k" and lt': "int i < int (Suc k)" and n: "n = k - Suc i"
    and le: "Suc i \<le> k" by linarith+
  obtain e env' s' where
    w: "reg_write R canon env (regs ! i) (vals ! i) (size_at sizes i) setpc = (e, env', s')"
    by (metis prod_cases3)
  show ?case
  proof (cases "e = UC_ERR_OK")
    case True
    with w have w': "reg_write R canon env (regs ! i) (vals ! i) (size_at sizes i) setpc
      = (UC_ERR_OK, env', s')" by simp
    from Suc.hyps(1) [OF n le, of env' s']
      reg_write_loop_step [OF lt w'] reg_write_loop_step [OF lt' w']
    show ?thesis by simp
  next
    case False
    from reg_write_loop_fail [OF lt w False] reg_write_loop_fail [OF lt' w False] False
    show ?thesis by simp
  qed
qed

text \<open>The loop looks only at the entries from i up to the count.\<close>

lemma reg_write_loop_cong:
  "(\<And>j. i \<le> j \<Longrightarrow> int j < count \<Longrightarrow>
      regs2 ! j = regs ! j \<and> vals2 ! j = vals ! j \<and> size_at sizes2 j = size_at sizes j) \<Longrightarrow>
   reg_write_loop R canon env regs2 vals2 sizes2 count setpc i
     = reg_write_loop R canon env regs vals sizes count setpc i"
proof (induction "nat count - i" arbitrary: i env setpc)
  case 0
  then have "\<not> int i < count" by linarith
  then show ?case by (simp add: reg_write_loop_done)
next
  case (Suc n)
  then have lt: "int i < count" and n: "n = nat count - Suc i" by linarith+
  from Suc.prems [of i] lt
  have same: "regs2 ! i = regs ! i" "vals2 ! i = vals ! i" "size_at sizes2 i = size_at sizes i"
    by simp_all
  obtain e env' s' where
    w: "reg_write R canon env (regs ! i) (vals ! i) (size_at sizes i) setpc = (e, env', s')"
    by (metis prod_cases3)
  have w2: "reg_write R canon env (regs2 ! i) (vals2 ! i) (size_at sizes2 i) setpc = (e, env', s')"
    using w same by simp
  show ?case
  proof (cases "e = UC_ERR_OK")
    case True
    have "reg_write_loop R canon env' regs2 vals2 sizes2 count s' (Suc i)
      = reg_write_loop R canon env' regs vals sizes count s' (Suc i)"
      by (rule Suc.hyps(1) [OF n]) (use Suc.prems in simp)
    with True w w2 reg_write_loop_step [OF lt, of R canon env regs vals sizes setpc env' s']
      reg_write_loop_step [OF lt, of R canon env regs2 vals2 sizes2 setpc env' s']
    show ?thesis by simp
  next
    case False
    from reg_write_loop_fail [OF lt w False] reg_write_loop_fail [OF lt w2 False]
    show ?thesis by simp
  qed
qed

subsection \<open>One turn of the read loop\<close>

lemma reg_read_loop_done:
  "\<not> int i < count \<Longrightarrow> reg_read_loop R env regs vals sizes count i = (UC_ERR_OK, vals)"
  by (simp add: reg_read_loop.simps [of _ _ _ _ _ _ i])

lemma reg_read_loop_fail:
  "int i < count \<Longrightarrow>
   reg_read R env (regs ! i) (vals ! i) (size_at sizes i) = (e, val') \<Longrightarrow>
   e \<noteq> UC_ERR_OK \<Longrightarrow>
   reg_read_loop R env regs vals sizes count i = (e, vals)"
proof -
  assume lt: "int i < count" and r: "reg_read R env (regs ! i) (vals ! i) (size_at sizes i) = (e, val')"
    and e: "e \<noteq> UC_ERR_OK"
  from reg_read_fail_frame [OF r e] have "val' = vals ! i" .
  with lt r e show ?thesis
    by (simp add: reg_read_loop.simps [of _ _ _ _ _ _ i])
qed

lemma reg_read_loop_step:
  "int i < count \<Longrightarrow>
   reg_read R env (regs ! i) (vals ! i) (size_at sizes i) = (UC_ERR_OK, val') \<Longrightarrow>
   reg_read_loop R env regs vals sizes count i
     = reg_read_loop R env regs (vals[i := val']) sizes count (Suc i)"
  by (simp add: reg_read_loop.simps [of _ _ _ _ _ _ i])

lemma reg_read_loop_err:
  "fst (reg_read_loop R env regs vals sizes count i) = UC_ERR_OK \<or>
   fst (reg_read_loop R env regs vals sizes count i) = UC_ERR_ARG"
proof (induction "nat count - i" arbitrary: i vals)
  case 0
  then have "\<not> int i < count" by linarith
  then show ?case by (simp add: reg_read_loop_done)
next
  case (Suc n)
  then have lt: "int i < count" and n: "n = nat count - Suc i" by linarith+
  obtain e val' where
    r: "reg_read R env (regs ! i) (vals ! i) (size_at sizes i) = (e, val')"
    by (metis surj_pair)
  show ?case
  proof (cases "e = UC_ERR_OK")
    case True
    with Suc.hyps(1) [OF n, of "vals[i := val']"]
      reg_read_loop_step [OF lt, of R env regs vals sizes val'] r
    show ?thesis by simp
  next
    case False
    with reg_read_err [of R env "regs ! i" "vals ! i" "size_at sizes i"]
      reg_read_loop_fail [OF lt r] r
    show ?thesis by simp
  qed
qed

text \<open>The loop writes no buffer below i and none from the count on, and keeps their number.\<close>

lemma reg_read_loop_frame:
  "reg_read_loop R env regs vals sizes count i = (err, vals') \<Longrightarrow>
   length vals' = length vals \<and> (\<forall>j. j < i \<or> count \<le> int j \<longrightarrow> vals' ! j = vals ! j)"
proof (induction "nat count - i" arbitrary: i vals)
  case 0
  then have "\<not> int i < count" by linarith
  with 0 show ?case by (simp add: reg_read_loop_done)
next
  case (Suc n)
  then have lt: "int i < count" and n: "n = nat count - Suc i" by linarith+
  obtain e val' where
    r: "reg_read R env (regs ! i) (vals ! i) (size_at sizes i) = (e, val')"
    by (metis surj_pair)
  show ?case
  proof (cases "e = UC_ERR_OK")
    case True
    with r reg_read_loop_step [OF lt, of R env regs vals sizes val'] Suc.prems
    have "reg_read_loop R env regs (vals[i := val']) sizes count (Suc i) = (err, vals')"
      by simp
    from Suc.hyps(1) [OF n this] lt show ?thesis by auto
  next
    case False
    from reg_read_loop_fail [OF lt r False] Suc.prems show ?thesis by simp
  qed
qed

text \<open>After a batch that succeeds, each buffer of the batch holds what its read gave.\<close>

lemma reg_read_loop_populated:
  "reg_read_loop R env regs vals sizes count i = (UC_ERR_OK, vals') \<Longrightarrow>
   i \<le> j \<Longrightarrow> int j < count \<Longrightarrow> j < length vals \<Longrightarrow>
   reg_read R env (regs ! j) (vals ! j) (size_at sizes j) = (UC_ERR_OK, vals' ! j)"
proof (induction "nat count - i" arbitrary: i vals)
  case 0
  then show ?case by linarith
next
  case (Suc n)
  then have lt: "int i < count" and n: "n = nat count - Suc i" by linarith+
  obtain e val' where
    r: "reg_read R env (regs ! i) (vals ! i) (size_at sizes i) = (e, val')"
    by (metis surj_pair)
  show ?case
  proof (cases "e = UC_ERR_OK")
    case True
    with r have r': "reg_read R env (regs ! i) (vals ! i) (size_at sizes i) = (UC_ERR_OK, val')"
      by simp
    from reg_read_loop_step [OF lt r'] Suc.prems(1)
    have rest: "reg_read_loop R env regs (vals[i := val']) sizes count (Suc i)
      = (UC_ERR_OK, vals')" by simp
    show ?thesis
    proof (cases "j = i")
      case True
      from reg_read_loop_frame [OF rest] have "vals' ! i = (vals[i := val']) ! i" by simp
      with True Suc.prems(4) r' show ?thesis by simp
    next
      case False
      with Suc.prems have le: "Suc i \<le> j" by simp
      from Suc.hyps(1) [OF n rest le Suc.prems(3)] Suc.prems(4) False
      show ?thesis by simp
    qed
  next
    case False
    from reg_read_loop_fail [OF lt r False] Suc.prems(1) False show ?thesis by simp
  qed
qed

lemma reg_read_loop_prefix:
  "i \<le> k \<Longrightarrow> int k < count \<Longrightarrow>
   reg_read_loop R env regs vals sizes (int k) i = (UC_ERR_OK, vals_k) \<Longrightarrow>
   reg_read_loop R env regs vals sizes count i
     = reg_read_loop R env regs vals_k sizes count k"
proof (induction "k - i" arbitrary: i vals)
  case 0
  then have ik: "i = k" by simp
  with 0 show ?case by (simp add: reg_read_loop_done)
next
  case (Suc n)
  then have lt: "int i < int k" and lt': "int i < count" and n: "n = k - Suc i"
    and le: "Suc i \<le> k" by linarith+
  obtain e val' where
    r: "reg_read R env (regs ! i) (vals ! i) (size_at sizes i) = (e, val')"
    by (metis surj_pair)
  show ?case
  proof (cases "e = UC_ERR_OK")
    case True
    with r have r': "reg_read R env (regs ! i) (vals ! i) (size_at sizes i) = (UC_ERR_OK, val')"
      by simp
    from Suc.prems(3) reg_read_loop_step [OF lt r']
    have "reg_read_loop R env regs (vals[i := val']) sizes (int k) (Suc i)
      = (UC_ERR_OK, vals_k)" by simp
    from Suc.hyps(1) [OF n le Suc.prems(2) this] reg_read_loop_step [OF lt' r']
    show ?thesis by simp
  next
    case False
    from reg_read_loop_fail [OF lt r False] Suc.prems(3) False
    show ?thesis by simp
  qed
qed

lemma reg_read_loop_Suc:
  "i \<le> k \<Longrightarrow>
   reg_read_loop R env regs vals sizes (int (Suc k)) i
     = (case reg_read_loop R env regs vals sizes (int k) i of
          (err, vals_k) \<Rightarrow>
            if err \<noteq> UC_ERR_OK then (err, vals_k)
            else (case reg_read R env (regs ! k) (vals_k ! k) (size_at sizes k) of
                    (e, val') \<Rightarrow> (e, vals_k[k := val'])))"
proof (induction "k - i" arbitrary: i vals)
  case 0
  then have ik: "i = k" by simp
  obtain e val' where
    r: "reg_read R env (regs ! k) (vals ! k) (size_at sizes k) = (e, val')"
    by (metis surj_pair)
  have lt: "int k < int (Suc k)" by simp
  show ?case
  proof (cases "e = UC_ERR_OK")
    case True
    with r reg_read_loop_step [OF lt, of R env regs vals sizes val'] ik
    show ?thesis by (simp add: reg_read_loop_done)
  next
    case False
    from reg_read_fail_frame [OF r False] have "val' = vals ! k" .
    with r reg_read_loop_fail [OF lt r False] ik
    show ?thesis by (simp add: reg_read_loop_done)
  qed
next
  case (Suc n)
  then have lt: "int i < int k" and lt': "int i < int (Suc k)" and n: "n = k - Suc i"
    and le: "Suc i \<le> k" by linarith+
  obtain e val' where
    r: "reg_read R env (regs ! i) (vals ! i) (size_at sizes i) = (e, val')"
    by (metis surj_pair)
  show ?case
  proof (cases "e = UC_ERR_OK")
    case True
    with r have r': "reg_read R env (regs ! i) (vals ! i) (size_at sizes i) = (UC_ERR_OK, val')"
      by simp
    from Suc.hyps(1) [OF n le, of "vals[i := val']"]
      reg_read_loop_step [OF lt r'] reg_read_loop_step [OF lt' r']
    show ?thesis by simp
  next
    case False
    from reg_read_loop_fail [OF lt r False] reg_read_loop_fail [OF lt' r False] False
    show ?thesis by simp
  qed
qed

lemma reg_read_loop_cong:
  "(\<And>j. i \<le> j \<Longrightarrow> int j < count \<Longrightarrow>
      regs2 ! j = regs ! j \<and> size_at sizes2 j = size_at sizes j) \<Longrightarrow>
   reg_read_loop R env regs2 vals sizes2 count i
     = reg_read_loop R env regs vals sizes count i"
proof (induction "nat count - i" arbitrary: i vals)
  case 0
  then have "\<not> int i < count" by linarith
  then show ?case by (simp add: reg_read_loop_done)
next
  case (Suc n)
  then have lt: "int i < count" and n: "n = nat count - Suc i" by linarith+
  from Suc.prems [of i] lt
  have same: "regs2 ! i = regs ! i" "size_at sizes2 i = size_at sizes i"
    by simp_all
  obtain e val' where
    r: "reg_read R env (regs ! i) (vals ! i) (size_at sizes i) = (e, val')"
    by (metis surj_pair)
  have r2: "reg_read R env (regs2 ! i) (vals ! i) (size_at sizes2 i) = (e, val')"
    using r same by simp
  show ?case
  proof (cases "e = UC_ERR_OK")
    case True
    have "reg_read_loop R env regs2 (vals[i := val']) sizes2 count (Suc i)
      = reg_read_loop R env regs (vals[i := val']) sizes count (Suc i)"
      by (rule Suc.hyps(1) [OF n]) (use Suc.prems in simp)
    with True r r2 reg_read_loop_step [OF lt, of R env regs vals sizes val']
      reg_read_loop_step [OF lt, of R env regs2 vals sizes2 val']
    show ?thesis by simp
  next
    case False
    from reg_read_loop_fail [OF lt r False] reg_read_loop_fail [OF lt r2 False]
    show ?thesis by simp
  qed
qed

subsection \<open>The branches of the accessor\<close>

lemma reg_write_alt:
  "reg_write R canon env regid val sz setpc =
     (if in_aregs R regid then
        (case CHECK_REG_TYPE 4 sz of
           Inl e \<Rightarrow> (e, env, setpc)
         | Inr ret \<Rightarrow>
             (ret, env\<lparr>aregs := (aregs env)[regid - UC_M68K_REG_A0 R := val]\<rparr>, setpc))
      else if in_dregs R regid then
        (case CHECK_REG_TYPE 4 sz of
           Inl e \<Rightarrow> (e, env, setpc)
         | Inr ret \<Rightarrow>
             (ret, env\<lparr>dregs := (dregs env)[regid - UC_M68K_REG_D0 R := val]\<rparr>, setpc))
      else if regid = UC_M68K_REG_PC R then
        (case CHECK_REG_TYPE 4 sz of
           Inl e \<Rightarrow> (e, env, setpc)
         | Inr ret \<Rightarrow> (ret, env\<lparr>pc := val\<rparr>, 1))
      else if regid = UC_M68K_REG_SR R then
        (case CHECK_REG_TYPE 4 sz of
           Inl e \<Rightarrow> (e, env, setpc)
         | Inr ret \<Rightarrow> (ret, env\<lparr>sr := canon val\<rparr>, setpc))
      else (UC_ERR_ARG, env, setpc))"
  by (simp only: reg_write_def in_aregs_def in_dregs_def cpu_m68k_set_sr_def)

lemma reg_read_alt:
  "reg_read R env regid val sz =
     (if in_aregs R regid then
        (case CHECK_REG_TYPE 4 sz of
           Inl e \<Rightarrow> (e, val)
         | Inr ret \<Rightarrow> (ret, aregs env ! (regid - UC_M68K_REG_A0 R)))
      else if in_dregs R regid then
        (case CHECK_REG_TYPE 4 sz of
           Inl e \<Rightarrow> (e, val)
         | Inr ret \<Rightarrow> (ret, dregs env ! (regid - UC_M68K_REG_D0 R)))
      else if regid = UC_M68K_REG_PC R then
        (case CHECK_REG_TYPE 4 sz of Inl e \<Rightarrow> (e, val) | Inr ret \<Rightarrow> (ret, pc env))
      else if regid = UC_M68K_REG_SR R then
        (case CHECK_REG_TYPE 4 sz of Inl e \<Rightarrow> (e, val) | Inr ret \<Rightarrow> (ret, sr env))
      else (UC_ERR_ARG, val))"
  by (simp only: reg_read_def in_aregs_def in_dregs_def)

lemma reg_write_aregs:
  "in_aregs R regid \<Longrightarrow>
   reg_write R canon env regid val sz setpc =
     (case CHECK_REG_TYPE 4 sz of
        Inl e \<Rightarrow> (e, env, setpc)
      | Inr ret \<Rightarrow> (ret, env\<lparr>aregs := (aregs env)[regid - UC_M68K_REG_A0 R := val]\<rparr>, setpc))"
  by (simp add: reg_write_alt)

lemma reg_write_dregs:
  "\<not> in_aregs R regid \<Longrightarrow> in_dregs R regid \<Longrightarrow>
   reg_write R canon env regid val sz setpc =
     (case CHECK_REG_TYPE 4 sz of
        Inl e \<Rightarrow> (e, env, setpc)
      | Inr ret \<Rightarrow> (ret, env\<lparr>dregs := (dregs env)[regid - UC_M68K_REG_D0 R := val]\<rparr>, setpc))"
  by (simp add: reg_write_alt)

lemma reg_write_pc:
  "\<not> in_aregs R regid \<Longrightarrow> \<not> in_dregs R regid \<Longrightarrow> regid = UC_M68K_REG_PC R \<Longrightarrow>
   reg_write R canon env regid val sz setpc =
     (case CHECK_REG_TYPE 4 sz of
        Inl e \<Rightarrow> (e, env, setpc)
      | Inr ret \<Rightarrow> (ret, env\<lparr>pc := val\<rparr>, 1))"
  by (simp add: reg_write_alt)

lemma reg_write_sr:
  "\<not> in_aregs R regid \<Longrightarrow> \<not> in_dregs R regid \<Longrightarrow> regid \<noteq> UC_M68K_REG_PC R \<Longrightarrow>
   regid = UC_M68K_REG_SR R \<Longrightarrow>
   reg_write R canon env regid val sz setpc =
     (case CHECK_REG_TYPE 4 sz of
        Inl e \<Rightarrow> (e, env, setpc)
      | Inr ret \<Rightarrow> (ret, env\<lparr>sr := canon val\<rparr>, setpc))"
  by (simp add: reg_write_alt)

lemma reg_write_default:
  "\<not> in_aregs R regid \<Longrightarrow> \<not> in_dregs R regid \<Longrightarrow> regid \<noteq> UC_M68K_REG_PC R \<Longrightarrow>
   regid \<noteq> UC_M68K_REG_SR R \<Longrightarrow>
   reg_write R canon env regid val sz setpc = (UC_ERR_ARG, env, setpc)"
  by (simp add: reg_write_alt)

lemma reg_read_aregs:
  "in_aregs R regid \<Longrightarrow>
   reg_read R env regid val sz =
     (case CHECK_REG_TYPE 4 sz of
        Inl e \<Rightarrow> (e, val)
      | Inr ret \<Rightarrow> (ret, aregs env ! (regid - UC_M68K_REG_A0 R)))"
  by (simp add: reg_read_alt)

lemma reg_read_dregs:
  "\<not> in_aregs R regid \<Longrightarrow> in_dregs R regid \<Longrightarrow>
   reg_read R env regid val sz =
     (case CHECK_REG_TYPE 4 sz of
        Inl e \<Rightarrow> (e, val)
      | Inr ret \<Rightarrow> (ret, dregs env ! (regid - UC_M68K_REG_D0 R)))"
  by (simp add: reg_read_alt)

lemma reg_read_pc:
  "\<not> in_aregs R regid \<Longrightarrow> \<not> in_dregs R regid \<Longrightarrow> regid = UC_M68K_REG_PC R \<Longrightarrow>
   reg_read R env regid val sz =
     (case CHECK_REG_TYPE 4 sz of Inl e \<Rightarrow> (e, val) | Inr ret \<Rightarrow> (ret, pc env))"
  by (simp add: reg_read_alt)

lemma reg_read_sr:
  "\<not> in_aregs R regid \<Longrightarrow> \<not> in_dregs R regid \<Longrightarrow> regid \<noteq> UC_M68K_REG_PC R \<Longrightarrow>
   regid = UC_M68K_REG_SR R \<Longrightarrow>
   reg_read R env regid val sz =
     (case CHECK_REG_TYPE 4 sz of Inl e \<Rightarrow> (e, val) | Inr ret \<Rightarrow> (ret, sr env))"
  by (simp add: reg_read_alt)

lemma reg_read_default:
  "\<not> in_aregs R regid \<Longrightarrow> \<not> in_dregs R regid \<Longrightarrow> regid \<noteq> UC_M68K_REG_PC R \<Longrightarrow>
   regid \<noteq> UC_M68K_REG_SR R \<Longrightarrow>
   reg_read R env regid val sz = (UC_ERR_ARG, val)"
  by (simp add: reg_read_alt)

lemma regid_cases [case_names aregs dregs pc sr default]:
  assumes "in_aregs R regid \<Longrightarrow> P"
    and "\<not> in_aregs R regid \<Longrightarrow> in_dregs R regid \<Longrightarrow> P"
    and "\<not> in_aregs R regid \<Longrightarrow> \<not> in_dregs R regid \<Longrightarrow> regid = UC_M68K_REG_PC R \<Longrightarrow> P"
    and "\<not> in_aregs R regid \<Longrightarrow> \<not> in_dregs R regid \<Longrightarrow> regid \<noteq> UC_M68K_REG_PC R \<Longrightarrow>
         regid = UC_M68K_REG_SR R \<Longrightarrow> P"
    and "\<not> in_aregs R regid \<Longrightarrow> \<not> in_dregs R regid \<Longrightarrow> regid \<noteq> UC_M68K_REG_PC R \<Longrightarrow>
         regid \<noteq> UC_M68K_REG_SR R \<Longrightarrow> P"
  shows P
  using assms by blast

lemma CHECK_REG_TYPE_ok: "sz = None \<or> sz = Some 4 \<Longrightarrow> CHECK_REG_TYPE 4 sz = Inr UC_ERR_OK"
  by (auto simp: CHECK_REG_TYPE_def)

lemma CHECK_REG_TYPE_bad: "n \<noteq> 4 \<Longrightarrow> CHECK_REG_TYPE 4 (Some n) = Inl UC_ERR_ARG"
  by (simp add: CHECK_REG_TYPE_def)

lemma reg_write_setpc:
  assumes wf: "regs_wf R"
    and w: "reg_write R canon env regid val sz setpc = (UC_ERR_OK, env', setpc')"
  shows "setpc' = (if regid = UC_M68K_REG_PC R then 1 else setpc)"
proof (cases R regid rule: regid_cases)
  case aregs
  with wf have "regid \<noteq> UC_M68K_REG_PC R" by (auto simp: regs_wf_def)
  with w aregs CHECK_REG_TYPE_cases [of 4 sz] show ?thesis
    by (auto simp: reg_write_aregs)
next
  case dregs
  with wf have "regid \<noteq> UC_M68K_REG_PC R" by (auto simp: regs_wf_def)
  with w dregs CHECK_REG_TYPE_cases [of 4 sz] show ?thesis
    by (auto simp: reg_write_dregs)
next
  case pc
  with w CHECK_REG_TYPE_cases [of 4 sz] show ?thesis
    by (auto simp: reg_write_pc)
next
  case sr
  with w CHECK_REG_TYPE_cases [of 4 sz] show ?thesis
    by (auto simp: reg_write_sr)
next
  case default
  with w show ?thesis by (simp add: reg_write_alt)
qed

lemma reg_write_loop_prefix_fail:
  "i \<le> k \<Longrightarrow> int k \<le> count \<Longrightarrow>
   reg_write_loop R canon env regs vals sizes (int k) setpc i = (e, env_k, s_k) \<Longrightarrow>
   e \<noteq> UC_ERR_OK \<Longrightarrow>
   reg_write_loop R canon env regs vals sizes count setpc i = (e, env_k, s_k)"
proof (induction "k - i" arbitrary: i env setpc)
  case 0
  then have ik: "i = k" by simp
  with 0 show ?case by (simp add: reg_write_loop_done)
next
  case (Suc n)
  then have lt: "int i < int k" and lt': "int i < count" and n: "n = k - Suc i"
    and le: "Suc i \<le> k" by linarith+
  obtain e1 env' s' where
    w: "reg_write R canon env (regs ! i) (vals ! i) (size_at sizes i) setpc = (e1, env', s')"
    by (metis prod_cases3)
  show ?case
  proof (cases "e1 = UC_ERR_OK")
    case True
    with w have w': "reg_write R canon env (regs ! i) (vals ! i) (size_at sizes i) setpc
      = (UC_ERR_OK, env', s')" by simp
    from Suc.prems(3) reg_write_loop_step [OF lt w']
    have "reg_write_loop R canon env' regs vals sizes (int k) s' (Suc i) = (e, env_k, s_k)"
      by simp
    from Suc.hyps(1) [OF n le Suc.prems(2) this Suc.prems(4)] reg_write_loop_step [OF lt' w']
    show ?thesis by simp
  next
    case False
    from reg_write_loop_fail [OF lt w False] reg_write_loop_fail [OF lt' w False] Suc.prems(3)
    show ?thesis by simp
  qed
qed

text \<open>In a batch that succeeds, every entry succeeded in the state it was tried in.\<close>

lemma reg_write_batch_ok_entries:
  assumes ok: "reg_write_batch R canon env regs vals sizes count setpc = (UC_ERR_OK, env', s')"
    and k: "int k < count"
  shows "\<exists>env_k s_k.
     reg_write_batch R canon env regs vals sizes (int k) setpc = (UC_ERR_OK, env_k, s_k) \<and>
     fst (reg_write R canon env_k (regs ! k) (vals ! k) (size_at sizes k) s_k) = UC_ERR_OK"
proof -
  obtain e env_k s_k where
    p: "reg_write_loop R canon env regs vals sizes (int k) setpc 0 = (e, env_k, s_k)"
    by (metis prod_cases3)
  have e: "e = UC_ERR_OK"
  proof (rule ccontr)
    assume ne: "e \<noteq> UC_ERR_OK"
    from reg_write_loop_prefix_fail [OF _ _ p ne, of count] k ok ne
    show False by (simp add: reg_write_batch_def)
  qed
  obtain e2 env2 s2 where
    w: "reg_write R canon env_k (regs ! k) (vals ! k) (size_at sizes k) s_k = (e2, env2, s2)"
    by (metis prod_cases3)
  have "e2 = UC_ERR_OK"
  proof (rule ccontr)
    assume ne: "e2 \<noteq> UC_ERR_OK"
    from reg_write_loop_prefix [OF _ k, of 0 R canon env regs vals sizes setpc env_k s_k] p e
      reg_write_loop_fail [OF k w ne] ok ne
    show False by (simp add: reg_write_batch_def)
  qed
  with p e w show ?thesis by (simp add: reg_write_batch_def)
qed

subsection \<open>The flag setpc\<close>

lemma reg_write_loop_setpc:
  "regs_wf R \<Longrightarrow>
   reg_write_loop R canon env regs vals sizes count setpc i = (UC_ERR_OK, env', setpc') \<Longrightarrow>
   setpc' = (if \<exists>j. i \<le> j \<and> int j < count \<and> regs ! j = UC_M68K_REG_PC R then 1 else setpc)"
proof (induction "nat count - i" arbitrary: i env setpc)
  case 0
  then have "\<not> int i < count" by linarith
  with 0 show ?case by (auto simp add: reg_write_loop_done)
next
  case (Suc n)
  then have lt: "int i < count" and n: "n = nat count - Suc i" by linarith+
  obtain e env1 s1 where
    w: "reg_write R canon env (regs ! i) (vals ! i) (size_at sizes i) setpc = (e, env1, s1)"
    by (metis prod_cases3)
  show ?case
  proof (cases "e = UC_ERR_OK")
    case True
    with w have w': "reg_write R canon env (regs ! i) (vals ! i) (size_at sizes i) setpc
      = (UC_ERR_OK, env1, s1)" by simp
    from reg_write_loop_step [OF lt w'] Suc.prems(2)
    have rest: "reg_write_loop R canon env1 regs vals sizes count s1 (Suc i)
      = (UC_ERR_OK, env', setpc')" by simp
    have s1: "s1 = (if regs ! i = UC_M68K_REG_PC R then 1 else setpc)"
      by (rule reg_write_setpc [OF Suc.prems(1) w'])
    have split: "(\<exists>j. i \<le> j \<and> int j < count \<and> regs ! j = UC_M68K_REG_PC R) \<longleftrightarrow>
      regs ! i = UC_M68K_REG_PC R \<or>
      (\<exists>j. Suc i \<le> j \<and> int j < count \<and> regs ! j = UC_M68K_REG_PC R)"
    proof
      assume "\<exists>j. i \<le> j \<and> int j < count \<and> regs ! j = UC_M68K_REG_PC R"
      then obtain j where j: "i \<le> j" "int j < count" "regs ! j = UC_M68K_REG_PC R" by blast
      show "regs ! i = UC_M68K_REG_PC R \<or>
        (\<exists>j. Suc i \<le> j \<and> int j < count \<and> regs ! j = UC_M68K_REG_PC R)"
      proof (cases "j = i")
        case True
        with j show ?thesis by simp
      next
        case False
        with j have "Suc i \<le> j" by simp
        with j show ?thesis by blast
      qed
    next
      assume "regs ! i = UC_M68K_REG_PC R \<or>
        (\<exists>j. Suc i \<le> j \<and> int j < count \<and> regs ! j = UC_M68K_REG_PC R)"
      then show "\<exists>j. i \<le> j \<and> int j < count \<and> regs ! j = UC_M68K_REG_PC R"
      proof
        assume "regs ! i = UC_M68K_REG_PC R"
        with lt show ?thesis by blast
      next
        assume "\<exists>j. Suc i \<le> j \<and> int j < count \<and> regs ! j = UC_M68K_REG_PC R"
        then obtain j where "Suc i \<le> j" "int j < count" "regs ! j = UC_M68K_REG_PC R" by blast
        then have "i \<le> j \<and> int j < count \<and> regs ! j = UC_M68K_REG_PC R" by simp
        then show ?thesis by blast
      qed
    qed
    from Suc.hyps(1) [OF n Suc.prems(1) rest] s1 split show ?thesis by auto
  next
    case False
    from reg_write_loop_fail [OF lt w False] Suc.prems(2) False show ?thesis by simp
  qed
qed

lemma m68k_reg_write_result:
  "reg_write_batch R canon (cpu_env uc) regs vals sizes count 0 = (err, env', s) \<Longrightarrow>
   m68k_reg_write R canon uc regs vals sizes count =
     (if err \<noteq> UC_ERR_OK then (err, uc\<lparr>cpu_env := env'\<rparr>)
      else if s \<noteq> 0 then
        (UC_ERR_OK, break_translation_loop (uc\<lparr>cpu_env := env', quit_request := True\<rparr>))
      else (UC_ERR_OK, uc\<lparr>cpu_env := env'\<rparr>))"
  by (simp add: m68k_reg_write_def)

lemma regs_wf_m68k_regs: "regs_wf m68k_regs"
  by (simp add: regs_wf_def m68k_regs_def in_aregs_def in_dregs_def)

subsection \<open>Batches of one entry, and the entry points\<close>

lemma reg_write_batch_single:
  "reg_write_batch R canon env [regid] [val] sizes 1 setpc
     = reg_write R canon env regid val (size_at sizes 0) setpc"
proof -
  obtain e env' s' where
    w: "reg_write R canon env ([regid] ! 0) ([val] ! 0) (size_at sizes 0) setpc = (e, env', s')"
    by (metis prod_cases3)
  have lt: "int 0 < 1" by simp
  show ?thesis
  proof (cases "e = UC_ERR_OK")
    case True
    with w reg_write_loop_step [OF lt, of R canon env "[regid]" "[val]" sizes setpc env' s']
    show ?thesis by (simp add: reg_write_batch_def reg_write_loop_done)
  next
    case False
    from reg_write_loop_fail [OF lt w False] w
    show ?thesis by (simp add: reg_write_batch_def)
  qed
qed

lemma reg_read_batch_single:
  "reg_read_batch R env [regid] [val] sizes 1
     = (case reg_read R env regid val (size_at sizes 0) of (e, val') \<Rightarrow> (e, [val']))"
proof -
  obtain e val' where
    r: "reg_read R env ([regid] ! 0) ([val] ! 0) (size_at sizes 0) = (e, val')"
    by (metis surj_pair)
  have lt: "int 0 < 1" by simp
  show ?thesis
  proof (cases "e = UC_ERR_OK")
    case True
    with r reg_read_loop_step [OF lt, of R env "[regid]" "[val]" sizes val']
    show ?thesis by (simp add: reg_read_batch_def reg_read_loop_done)
  next
    case False
    from reg_read_fail_frame [OF r False] have "val' = val" by simp
    with reg_read_loop_fail [OF lt r False] r
    show ?thesis by (simp add: reg_read_batch_def)
  qed
qed

lemma m68k_reg_write_env:
  "\<exists>s. reg_write_batch R canon (cpu_env uc) regs vals sizes count 0
     = (fst (m68k_reg_write R canon uc regs vals sizes count),
        cpu_env (snd (m68k_reg_write R canon uc regs vals sizes count)), s)"
proof -
  obtain e env' s where
    b: "reg_write_batch R canon (cpu_env uc) regs vals sizes count 0 = (e, env', s)"
    by (metis prod_cases3)
  from m68k_reg_write_result [OF b] b show ?thesis
    by (simp add: break_translation_loop_def)
qed

lemma m68k_context_reg_write_env:
  "\<exists>s. reg_write_batch R canon (data ctx) regs vals sizes count 0
     = (fst (m68k_context_reg_write R canon ctx regs vals sizes count),
        data (snd (m68k_context_reg_write R canon ctx regs vals sizes count)), s)"
  by (simp add: m68k_context_reg_write_def split: prod.splits)

subsection \<open>A write, then a read of the same register\<close>

lemma aregs_index: "regs_wf R \<Longrightarrow> in_aregs R regid \<Longrightarrow> regid - UC_M68K_REG_A0 R < 8"
  unfolding regs_wf_def in_aregs_def by linarith

lemma dregs_index: "regs_wf R \<Longrightarrow> in_dregs R regid \<Longrightarrow> regid - UC_M68K_REG_D0 R < 8"
  unfolding regs_wf_def in_dregs_def by linarith

lemma reg_write_read:
  assumes wf: "regs_wf R" and env: "env_wf env"
    and w: "reg_write R canon env regid V sz setpc = (UC_ERR_OK, env', setpc')"
  shows "reg_read R env' regid buf sz
           = (UC_ERR_OK, if regid = UC_M68K_REG_SR R then canon V else V) \<and> env_wf env'"
proof (cases R regid rule: regid_cases)
  case aregs
  with wf have sr: "regid \<noteq> UC_M68K_REG_SR R" by (auto simp: regs_wf_def)
  from aregs_index [OF wf aregs] env have i: "regid - UC_M68K_REG_A0 R < length (aregs env)"
    by (simp add: env_wf_def)
  from w aregs CHECK_REG_TYPE_cases [of 4 sz]
  have c: "CHECK_REG_TYPE 4 sz = Inr UC_ERR_OK"
    and e: "env' = env\<lparr>aregs := (aregs env)[regid - UC_M68K_REG_A0 R := V]\<rparr>"
    by (auto simp: reg_write_aregs)
  from aregs c e i sr env show ?thesis by (simp add: reg_read_aregs env_wf_def)
next
  case dregs
  with wf have sr: "regid \<noteq> UC_M68K_REG_SR R" by (auto simp: regs_wf_def)
  from dregs_index [OF wf dregs(2)] env have i: "regid - UC_M68K_REG_D0 R < length (dregs env)"
    by (simp add: env_wf_def)
  from w dregs CHECK_REG_TYPE_cases [of 4 sz]
  have c: "CHECK_REG_TYPE 4 sz = Inr UC_ERR_OK"
    and e: "env' = env\<lparr>dregs := (dregs env)[regid - UC_M68K_REG_D0 R := V]\<rparr>"
    by (auto simp: reg_write_dregs)
  from dregs c e i sr env show ?thesis by (simp add: reg_read_dregs env_wf_def)
next
  case pc
  with wf have sr: "regid \<noteq> UC_M68K_REG_SR R" by (auto simp: regs_wf_def)
  from w pc CHECK_REG_TYPE_cases [of 4 sz]
  have c: "CHECK_REG_TYPE 4 sz = Inr UC_ERR_OK" and e: "env' = env\<lparr>pc := V\<rparr>"
    by (auto simp: reg_write_pc)
  from pc c e sr env show ?thesis by (simp add: reg_read_pc env_wf_def)
next
  case sr
  from w sr CHECK_REG_TYPE_cases [of 4 sz]
  have c: "CHECK_REG_TYPE 4 sz = Inr UC_ERR_OK" and e: "env' = env\<lparr>sr := canon V\<rparr>"
    by (auto simp: reg_write_sr)
  from sr c e env show ?thesis by (simp add: reg_read_sr env_wf_def)
next
  case default
  with w show ?thesis by (simp add: reg_write_default)
qed

text \<open>Whether a write succeeds depends on the identifier and the declared size only.\<close>

lemma reg_write_fst:
  "fst (reg_write R canon env regid V sz setpc) = fst (reg_write R canon env2 regid W sz setpc2)"
  by (cases R regid rule: regid_cases)
     (simp_all add: reg_write_aregs reg_write_dregs reg_write_pc reg_write_sr reg_write_default
        split: sum.split)

section \<open>Properties of the binding\<close>

text \<open>
  Claim C1, as amended. A batch write on live state that returns the success code and has
  at least one entry for the program-counter identifier raises the quit flag and signals
  the translation-loop controller exactly once for the call, however many of its entries
  write the program counter. The same batch on a context snapshot leaves the engine as it
  is: no flag, no signal.
\<close>

theorem pc_write_restart:
  assumes wf: "regs_wf R"
  shows
  "(live_reg_write R canon (uc, ctx) regs vals sizes count = (UC_ERR_OK, uc', ctx') \<and>
    (\<exists>j. int j < count \<and> regs ! j = UC_M68K_REG_PC R) \<longrightarrow>
      quit_request uc' \<and>
      break_translation_loop_calls uc' = Suc (break_translation_loop_calls uc)) \<and>
   (context_reg_write R canon (uc, ctx) regs vals sizes count = (err, uc'', ctx'') \<longrightarrow>
      uc'' = uc \<and> quit_request uc'' = quit_request uc \<and>
      break_translation_loop_calls uc'' = break_translation_loop_calls uc)"
proof -
  have live: "quit_request uc' \<and>
      break_translation_loop_calls uc' = Suc (break_translation_loop_calls uc)"
    if res: "live_reg_write R canon (uc, ctx) regs vals sizes count = (UC_ERR_OK, uc', ctx')"
      and j: "\<exists>j. int j < count \<and> regs ! j = UC_M68K_REG_PC R"
  proof -
    obtain e env' s where
      b: "reg_write_batch R canon (cpu_env uc) regs vals sizes count 0 = (e, env', s)"
      by (metis prod_cases3)
    from res have res': "m68k_reg_write R canon uc regs vals sizes count = (UC_ERR_OK, uc')"
      by (simp add: live_reg_write_def split: prod.splits)
    have e: "e = UC_ERR_OK"
      using res' m68k_reg_write_result [OF b] by (auto split: if_splits)
    from b e have "reg_write_loop R canon (cpu_env uc) regs vals sizes count 0 0
      = (UC_ERR_OK, env', s)" by (simp add: reg_write_batch_def)
    from reg_write_loop_setpc [OF wf this] j have "s = 1" by auto
    with res' m68k_reg_write_result [OF b] e
    have "uc' = break_translation_loop (uc\<lparr>cpu_env := env', quit_request := True\<rparr>)"
      by simp
    then show ?thesis by (simp add: break_translation_loop_def)
  qed
  have snap: "uc'' = uc"
    if "context_reg_write R canon (uc, ctx) regs vals sizes count = (err, uc'', ctx'')"
    using that by (simp add: context_reg_write_def split: prod.splits)
  from live snap show ?thesis by blast
qed

theorem pc_write_restart_witness:
  "regs_wf m68k_regs \<and>
   live_reg_write m68k_regs id (uc0, ctx0) [18, 18] [5, 6] (Some [4, 4]) 2
     = (UC_ERR_OK,
        uc0\<lparr>cpu_env := env0\<lparr>pc := 6\<rparr>, quit_request := True,
            break_translation_loop_calls := 1\<rparr>, ctx0) \<and>
   (\<exists>j. int j < 2 \<and> [18, 18] ! j = UC_M68K_REG_PC m68k_regs) \<and>
   break_translation_loop_calls
     (uc0\<lparr>cpu_env := env0\<lparr>pc := 6\<rparr>, quit_request := True,
          break_translation_loop_calls := 1\<rparr>) = Suc (break_translation_loop_calls uc0) \<and>
   context_reg_write m68k_regs id (uc0, ctx0) [18, 18] [5, 6] (Some [4, 4]) 2
     = (UC_ERR_OK, uc0, ctx0\<lparr>data := env0\<lparr>pc := 6\<rparr>\<rparr>)"
proof -
  have l: "live_reg_write m68k_regs id (uc0, ctx0) [18, 18] [5, 6] (Some [4, 4]) 2
     = (UC_ERR_OK,
        uc0\<lparr>cpu_env := env0\<lparr>pc := 6\<rparr>, quit_request := True,
            break_translation_loop_calls := 1\<rparr>, ctx0)"
    by code_simp
  have c: "context_reg_write m68k_regs id (uc0, ctx0) [18, 18] [5, 6] (Some [4, 4]) 2
     = (UC_ERR_OK, uc0, ctx0\<lparr>data := env0\<lparr>pc := 6\<rparr>\<rparr>)"
    by code_simp
  have j: "\<exists>j. int j < 2 \<and> [18, 18] ! j = UC_M68K_REG_PC m68k_regs"
    by (rule exI [of _ 0]) (simp add: m68k_regs_def)
  from pc_write_restart [OF regs_wf_m68k_regs, where canon = id and uc = uc0 and ctx = ctx0
      and regs = "[18, 18]" and vals = "[5, 6]" and sizes = "Some [4, 4]" and count = 2
      and uc' = "uc0\<lparr>cpu_env := env0\<lparr>pc := 6\<rparr>, quit_request := True,
            break_translation_loop_calls := 1\<rparr>"
      and ctx' = ctx0 and err = UC_ERR_OK and uc'' = uc0
      and ctx'' = "ctx0\<lparr>data := env0\<lparr>pc := 6\<rparr>\<rparr>"] l c j
  show ?thesis using regs_wf_m68k_regs by simp
qed

text \<open>
  The claim as it was stated fails on a batch whose first entry writes the program counter
  and whose second entry has an unknown identifier: the write of the program counter
  succeeds and stays in the live state, the call returns the failure of the second entry,
  the quit flag is not raised and the controller is not signalled.
\<close>

theorem pc_write_restart_counterexample:
  "reg_write m68k_regs id env0 18 5 (Some 4) 0 = (UC_ERR_OK, env0\<lparr>pc := 5\<rparr>, 1) \<and>
   m68k_reg_write m68k_regs id uc0 [18, 0] [5, 6] (Some [4, 4]) 2
     = (UC_ERR_ARG, uc0\<lparr>cpu_env := env0\<lparr>pc := 5\<rparr>\<rparr>) \<and>
   \<not> quit_request (uc0\<lparr>cpu_env := env0\<lparr>pc := 5\<rparr>\<rparr>) \<and>
   break_translation_loop_calls (uc0\<lparr>cpu_env := env0\<lparr>pc := 5\<rparr>\<rparr>) = 0"
  by code_simp

text \<open>
  Claim C2. A batch read or write goes through its entries in index order: the batch over
  the first k + 1 entries is the batch over the first k entries followed by entry k. If
  the first k entries succeed and entry k fails, the batch returns the failure code of
  entry k; the state is the one the first k writes left, the buffers are the ones the
  first k reads filled, with every buffer from index k on as it was; and nothing depends
  on the entries after k: any batch that agrees up to entry k gives the same result.
\<close>

theorem batch_fail_fast:
  assumes k: "int k < count"
  shows
  "reg_write_batch R canon env regs vals sizes (int (Suc k)) setpc
     = (case reg_write_batch R canon env regs vals sizes (int k) setpc of
          (err, env_k, s_k) \<Rightarrow>
            if err \<noteq> UC_ERR_OK then (err, env_k, s_k)
            else reg_write R canon env_k (regs ! k) (vals ! k) (size_at sizes k) s_k) \<and>
   reg_read_batch R env regs vals sizes (int (Suc k))
     = (case reg_read_batch R env regs vals sizes (int k) of
          (err, vals_k) \<Rightarrow>
            if err \<noteq> UC_ERR_OK then (err, vals_k)
            else (case reg_read R env (regs ! k) (vals_k ! k) (size_at sizes k) of
                    (e, val') \<Rightarrow> (e, vals_k[k := val']))) \<and>
   (\<forall>env_k s_k e env' s'.
      reg_write_batch R canon env regs vals sizes (int k) setpc = (UC_ERR_OK, env_k, s_k) \<and>
      reg_write R canon env_k (regs ! k) (vals ! k) (size_at sizes k) s_k = (e, env', s') \<and>
      e \<noteq> UC_ERR_OK \<longrightarrow>
      reg_write_batch R canon env regs vals sizes count setpc = (e, env_k, s_k) \<and>
      (\<forall>regs2 vals2 sizes2 count2.
         int k < count2 \<and>
         (\<forall>j\<le>k. regs2 ! j = regs ! j \<and> vals2 ! j = vals ! j \<and>
                 size_at sizes2 j = size_at sizes j) \<longrightarrow>
         reg_write_batch R canon env regs2 vals2 sizes2 count2 setpc = (e, env_k, s_k))) \<and>
   (\<forall>vals_k e val'.
      reg_read_batch R env regs vals sizes (int k) = (UC_ERR_OK, vals_k) \<and>
      reg_read R env (regs ! k) (vals ! k) (size_at sizes k) = (e, val') \<and>
      e \<noteq> UC_ERR_OK \<longrightarrow>
      reg_read_batch R env regs vals sizes count = (e, vals_k) \<and>
      (\<forall>j<k. j < length vals \<longrightarrow>
         reg_read R env (regs ! j) (vals ! j) (size_at sizes j) = (UC_ERR_OK, vals_k ! j)) \<and>
      (\<forall>j\<ge>k. vals_k ! j = vals ! j) \<and>
      (\<forall>regs2 sizes2 count2.
         int k < count2 \<and>
         (\<forall>j\<le>k. regs2 ! j = regs ! j \<and> size_at sizes2 j = size_at sizes j) \<longrightarrow>
         reg_read_batch R env regs2 vals sizes2 count2 = (e, vals_k)))"
proof -
  have wr: "reg_write_batch R canon env regs2 vals2 sizes2 count2 setpc = (e, env_k, s_k)"
    if pre: "reg_write_batch R canon env regs vals sizes (int k) setpc = (UC_ERR_OK, env_k, s_k)"
      and w: "reg_write R canon env_k (regs ! k) (vals ! k) (size_at sizes k) s_k = (e, env', s')"
      and e: "e \<noteq> UC_ERR_OK"
      and k2: "int k < count2"
      and same: "\<forall>j\<le>k. regs2 ! j = regs ! j \<and> vals2 ! j = vals ! j \<and>
                 size_at sizes2 j = size_at sizes j"
    for env_k s_k e env' s' regs2 vals2 sizes2 count2
  proof -
    from reg_write_fail_frame [OF w e] w same
    have w2: "reg_write R canon env_k (regs2 ! k) (vals2 ! k) (size_at sizes2 k) s_k
      = (e, env_k, s_k)" by simp
    have "reg_write_loop R canon env regs2 vals2 sizes2 (int k) setpc 0
      = reg_write_loop R canon env regs vals sizes (int k) setpc 0"
      by (rule reg_write_loop_cong) (use same in simp)
    with pre have pre2: "reg_write_loop R canon env regs2 vals2 sizes2 (int k) setpc 0
      = (UC_ERR_OK, env_k, s_k)" by (simp add: reg_write_batch_def)
    from reg_write_loop_prefix [OF _ k2 pre2] reg_write_loop_fail [OF k2 w2 e]
    show ?thesis by (simp add: reg_write_batch_def)
  qed
  have rd: "reg_read_batch R env regs2 vals sizes2 count2 = (e, vals_k)"
    if pre: "reg_read_batch R env regs vals sizes (int k) = (UC_ERR_OK, vals_k)"
      and r: "reg_read R env (regs ! k) (vals ! k) (size_at sizes k) = (e, val')"
      and e: "e \<noteq> UC_ERR_OK"
      and k2: "int k < count2"
      and same: "\<forall>j\<le>k. regs2 ! j = regs ! j \<and> size_at sizes2 j = size_at sizes j"
    for vals_k e val' regs2 sizes2 count2
  proof -
    from pre have pre': "reg_read_loop R env regs vals sizes (int k) 0 = (UC_ERR_OK, vals_k)"
      by (simp add: reg_read_batch_def)
    from reg_read_loop_frame [OF pre'] have "vals_k ! k = vals ! k" by simp
    with r same have r2: "reg_read R env (regs2 ! k) (vals_k ! k) (size_at sizes2 k)
      = (e, val')" by simp
    have "reg_read_loop R env regs2 vals sizes2 (int k) 0
      = reg_read_loop R env regs vals sizes (int k) 0"
      by (rule reg_read_loop_cong) (use same in simp)
    with pre' have pre2: "reg_read_loop R env regs2 vals sizes2 (int k) 0
      = (UC_ERR_OK, vals_k)" by simp
    from reg_read_loop_prefix [OF _ k2 pre2] reg_read_loop_fail [OF k2 r2 e]
    show ?thesis by (simp add: reg_read_batch_def)
  qed
  have populated:
    "reg_read R env (regs ! j) (vals ! j) (size_at sizes j) = (UC_ERR_OK, vals_k ! j)"
    if "reg_read_batch R env regs vals sizes (int k) = (UC_ERR_OK, vals_k)"
      and "j < k" and "j < length vals" for vals_k j
    using that reg_read_loop_populated [of R env regs vals sizes "int k" 0 vals_k j]
    by (simp add: reg_read_batch_def)
  have untouched: "vals_k ! j = vals ! j"
    if "reg_read_batch R env regs vals sizes (int k) = (UC_ERR_OK, vals_k)" and "k \<le> j"
    for vals_k j
    using that reg_read_loop_frame [of R env regs vals sizes "int k" 0 UC_ERR_OK vals_k]
    by (simp add: reg_read_batch_def)
  have write_part:
    "\<forall>env_k s_k e env' s'.
      reg_write_batch R canon env regs vals sizes (int k) setpc = (UC_ERR_OK, env_k, s_k) \<and>
      reg_write R canon env_k (regs ! k) (vals ! k) (size_at sizes k) s_k = (e, env', s') \<and>
      e \<noteq> UC_ERR_OK \<longrightarrow>
      reg_write_batch R canon env regs vals sizes count setpc = (e, env_k, s_k) \<and>
      (\<forall>regs2 vals2 sizes2 count2.
         int k < count2 \<and>
         (\<forall>j\<le>k. regs2 ! j = regs ! j \<and> vals2 ! j = vals ! j \<and>
                 size_at sizes2 j = size_at sizes j) \<longrightarrow>
         reg_write_batch R canon env regs2 vals2 sizes2 count2 setpc = (e, env_k, s_k))"
  proof (intro conjI allI impI; elim conjE)
    fix env_k s_k e env' s'
    assume a: "reg_write_batch R canon env regs vals sizes (int k) setpc = (UC_ERR_OK, env_k, s_k)"
      "reg_write R canon env_k (regs ! k) (vals ! k) (size_at sizes k) s_k = (e, env', s')"
      "e \<noteq> UC_ERR_OK"
    from wr [OF a k] show "reg_write_batch R canon env regs vals sizes count setpc = (e, env_k, s_k)"
      by simp
    fix regs2 vals2 sizes2 count2
    assume "int k < count2"
      "\<forall>j\<le>k. regs2 ! j = regs ! j \<and> vals2 ! j = vals ! j \<and>
                 size_at sizes2 j = size_at sizes j"
    with a show "reg_write_batch R canon env regs2 vals2 sizes2 count2 setpc = (e, env_k, s_k)"
      by (rule wr)
  qed
  have read_part:
    "\<forall>vals_k e val'.
      reg_read_batch R env regs vals sizes (int k) = (UC_ERR_OK, vals_k) \<and>
      reg_read R env (regs ! k) (vals ! k) (size_at sizes k) = (e, val') \<and>
      e \<noteq> UC_ERR_OK \<longrightarrow>
      reg_read_batch R env regs vals sizes count = (e, vals_k) \<and>
      (\<forall>j<k. j < length vals \<longrightarrow>
         reg_read R env (regs ! j) (vals ! j) (size_at sizes j) = (UC_ERR_OK, vals_k ! j)) \<and>
      (\<forall>j\<ge>k. vals_k ! j = vals ! j) \<and>
      (\<forall>regs2 sizes2 count2.
         int k < count2 \<and>
         (\<forall>j\<le>k. regs2 ! j = regs ! j \<and> size_at sizes2 j = size_at sizes j) \<longrightarrow>
         reg_read_batch R env regs2 vals sizes2 count2 = (e, vals_k))"
  proof (intro conjI allI impI; elim conjE)
    fix vals_k e val'
    assume a: "reg_read_batch R env regs vals sizes (int k) = (UC_ERR_OK, vals_k)"
      "reg_read R env (regs ! k) (vals ! k) (size_at sizes k) = (e, val')"
      "e \<noteq> UC_ERR_OK"
    from rd [OF a k] show "reg_read_batch R env regs vals sizes count = (e, vals_k)"
      by simp
    {
      fix j assume "j < k" "j < length vals"
      with a(1) show "reg_read R env (regs ! j) (vals ! j) (size_at sizes j)
        = (UC_ERR_OK, vals_k ! j)" by (rule populated)
    }
    {
      fix j assume "k \<le> j"
      with a(1) show "vals_k ! j = vals ! j" by (rule untouched)
    }
    fix regs2 sizes2 count2
    assume "int k < count2"
      "\<forall>j\<le>k. regs2 ! j = regs ! j \<and> size_at sizes2 j = size_at sizes j"
    with a show "reg_read_batch R env regs2 vals sizes2 count2 = (e, vals_k)"
      by (rule rd)
  qed
  have write_order:
    "reg_write_batch R canon env regs vals sizes (int (Suc k)) setpc
     = (case reg_write_batch R canon env regs vals sizes (int k) setpc of
          (err, env_k, s_k) \<Rightarrow>
            if err \<noteq> UC_ERR_OK then (err, env_k, s_k)
            else reg_write R canon env_k (regs ! k) (vals ! k) (size_at sizes k) s_k)"
    unfolding reg_write_batch_def by (rule reg_write_loop_Suc) simp
  have read_order:
    "reg_read_batch R env regs vals sizes (int (Suc k))
     = (case reg_read_batch R env regs vals sizes (int k) of
          (err, vals_k) \<Rightarrow>
            if err \<noteq> UC_ERR_OK then (err, vals_k)
            else (case reg_read R env (regs ! k) (vals_k ! k) (size_at sizes k) of
                    (e, val') \<Rightarrow> (e, vals_k[k := val'])))"
    unfolding reg_read_batch_def by (rule reg_read_loop_Suc) simp
  show ?thesis
    by (rule conjI [OF write_order conjI [OF read_order conjI [OF write_part read_part]]])
qed

theorem batch_fail_fast_witness:
  "int 1 < 3 \<and>
   reg_write_batch m68k_regs id (env0\<lparr>pc := 9\<rparr>) [18, 0, 1] [5, 6, 7] (Some [4, 4, 4]) (int 1) 0
     = (UC_ERR_OK, env0\<lparr>pc := 5\<rparr>, 1) \<and>
   reg_write m68k_regs id (env0\<lparr>pc := 5\<rparr>) ([18, 0, 1] ! 1) ([5, 6, 7] ! 1)
       (size_at (Some [4, 4, 4]) 1) 1
     = (UC_ERR_ARG, env0\<lparr>pc := 5\<rparr>, 1) \<and>
   reg_write_batch m68k_regs id (env0\<lparr>pc := 9\<rparr>) [18, 0, 1] [5, 6, 7] (Some [4, 4, 4]) 3 0
     = (UC_ERR_ARG, env0\<lparr>pc := 5\<rparr>, 1) \<and>
   reg_read_batch m68k_regs (env0\<lparr>pc := 9\<rparr>) [18, 0, 1] [5, 6, 7] (Some [4, 4, 4]) (int 1)
     = (UC_ERR_OK, [9, 6, 7]) \<and>
   reg_read m68k_regs (env0\<lparr>pc := 9\<rparr>) ([18, 0, 1] ! 1) ([5, 6, 7] ! 1)
       (size_at (Some [4, 4, 4]) 1)
     = (UC_ERR_ARG, 6) \<and>
   reg_read_batch m68k_regs (env0\<lparr>pc := 9\<rparr>) [18, 0, 1] [5, 6, 7] (Some [4, 4, 4]) 3
     = (UC_ERR_ARG, [9, 6, 7])"
proof -
  have k: "int 1 < 3" by simp
  have w1: "reg_write_batch m68k_regs id (env0\<lparr>pc := 9\<rparr>) [18, 0, 1] [5, 6, 7]
      (Some [4, 4, 4]) (int 1) 0 = (UC_ERR_OK, env0\<lparr>pc := 5\<rparr>, 1)"
    by code_simp
  have w2: "reg_write m68k_regs id (env0\<lparr>pc := 5\<rparr>) ([18, 0, 1] ! 1) ([5, 6, 7] ! 1)
      (size_at (Some [4, 4, 4]) 1) 1 = (UC_ERR_ARG, env0\<lparr>pc := 5\<rparr>, 1)"
    by code_simp
  have r1: "reg_read_batch m68k_regs (env0\<lparr>pc := 9\<rparr>) [18, 0, 1] [5, 6, 7]
      (Some [4, 4, 4]) (int 1) = (UC_ERR_OK, [9, 6, 7])"
    by code_simp
  have r2: "reg_read m68k_regs (env0\<lparr>pc := 9\<rparr>) ([18, 0, 1] ! 1) ([5, 6, 7] ! 1)
      (size_at (Some [4, 4, 4]) 1) = (UC_ERR_ARG, 6)"
    by code_simp
  have ne: "UC_ERR_ARG \<noteq> UC_ERR_OK" by simp
  note T = batch_fail_fast [OF k, of m68k_regs id "env0\<lparr>pc := 9\<rparr>" "[18, 0, 1]" "[5, 6, 7]"
      "Some [4, 4, 4]" 0]
  from T have W: "\<forall>env_k s_k e env' s'.
      reg_write_batch m68k_regs id (env0\<lparr>pc := 9\<rparr>) [18, 0, 1] [5, 6, 7] (Some [4, 4, 4])
        (int 1) 0 = (UC_ERR_OK, env_k, s_k) \<and>
      reg_write m68k_regs id env_k ([18, 0, 1] ! 1) ([5, 6, 7] ! 1)
        (size_at (Some [4, 4, 4]) 1) s_k = (e, env', s') \<and>
      e \<noteq> UC_ERR_OK \<longrightarrow>
      reg_write_batch m68k_regs id (env0\<lparr>pc := 9\<rparr>) [18, 0, 1] [5, 6, 7] (Some [4, 4, 4]) 3 0
        = (e, env_k, s_k)"
    by blast
  from T have Rd: "\<forall>vals_k e val'.
      reg_read_batch m68k_regs (env0\<lparr>pc := 9\<rparr>) [18, 0, 1] [5, 6, 7] (Some [4, 4, 4]) (int 1)
        = (UC_ERR_OK, vals_k) \<and>
      reg_read m68k_regs (env0\<lparr>pc := 9\<rparr>) ([18, 0, 1] ! 1) ([5, 6, 7] ! 1)
        (size_at (Some [4, 4, 4]) 1) = (e, val') \<and>
      e \<noteq> UC_ERR_OK \<longrightarrow>
      reg_read_batch m68k_regs (env0\<lparr>pc := 9\<rparr>) [18, 0, 1] [5, 6, 7] (Some [4, 4, 4]) 3
        = (e, vals_k)"
    by blast
  from W w1 w2 ne
  have w3: "reg_write_batch m68k_regs id (env0\<lparr>pc := 9\<rparr>) [18, 0, 1] [5, 6, 7]
      (Some [4, 4, 4]) 3 0 = (UC_ERR_ARG, env0\<lparr>pc := 5\<rparr>, 1)"
    by blast
  from Rd r1 r2 ne
  have r3: "reg_read_batch m68k_regs (env0\<lparr>pc := 9\<rparr>) [18, 0, 1] [5, 6, 7]
      (Some [4, 4, 4]) 3 = (UC_ERR_ARG, [9, 6, 7])"
    by blast
  from k w1 w2 w3 r1 r2 r3 show ?thesis by (intro conjI)
qed

text \<open>
  Claim C3. Every register operation of the binding returns the success code or the
  invalid-argument code and no other: the two accessors, the live batch read and write,
  and the context batch read and write.
\<close>

theorem only_ok_or_invalid_argument:
  "(fst (reg_read R env regid val sz) = UC_ERR_OK \<or>
    fst (reg_read R env regid val sz) = UC_ERR_ARG) \<and>
   (fst (reg_write R canon env regid val sz setpc) = UC_ERR_OK \<or>
    fst (reg_write R canon env regid val sz setpc) = UC_ERR_ARG) \<and>
   (fst (m68k_reg_read R uc regs vals sizes count) = UC_ERR_OK \<or>
    fst (m68k_reg_read R uc regs vals sizes count) = UC_ERR_ARG) \<and>
   (fst (m68k_reg_write R canon uc regs vals sizes count) = UC_ERR_OK \<or>
    fst (m68k_reg_write R canon uc regs vals sizes count) = UC_ERR_ARG) \<and>
   (fst (m68k_context_reg_read R ctx regs vals sizes count) = UC_ERR_OK \<or>
    fst (m68k_context_reg_read R ctx regs vals sizes count) = UC_ERR_ARG) \<and>
   (fst (m68k_context_reg_write R canon ctx regs vals sizes count) = UC_ERR_OK \<or>
    fst (m68k_context_reg_write R canon ctx regs vals sizes count) = UC_ERR_ARG)"
proof -
  have lr: "fst (m68k_reg_read R uc regs vals sizes count) = UC_ERR_OK \<or>
    fst (m68k_reg_read R uc regs vals sizes count) = UC_ERR_ARG"
    unfolding m68k_reg_read_def reg_read_batch_def by (rule reg_read_loop_err)
  have cr: "fst (m68k_context_reg_read R ctx regs vals sizes count) = UC_ERR_OK \<or>
    fst (m68k_context_reg_read R ctx regs vals sizes count) = UC_ERR_ARG"
    unfolding m68k_context_reg_read_def reg_read_batch_def by (rule reg_read_loop_err)
  have lw: "fst (m68k_reg_write R canon uc regs vals sizes count) = UC_ERR_OK \<or>
    fst (m68k_reg_write R canon uc regs vals sizes count) = UC_ERR_ARG"
  proof -
    from m68k_reg_write_env [of R canon uc regs vals sizes count]
    have "fst (m68k_reg_write R canon uc regs vals sizes count)
      = fst (reg_write_loop R canon (cpu_env uc) regs vals sizes count 0 0)"
      by (auto simp: reg_write_batch_def)
    with reg_write_loop_err [of R canon "cpu_env uc" regs vals sizes count 0 0]
    show ?thesis by simp
  qed
  have cw: "fst (m68k_context_reg_write R canon ctx regs vals sizes count) = UC_ERR_OK \<or>
    fst (m68k_context_reg_write R canon ctx regs vals sizes count) = UC_ERR_ARG"
  proof -
    from m68k_context_reg_write_env [of R canon ctx regs vals sizes count]
    have "fst (m68k_context_reg_write R canon ctx regs vals sizes count)
      = fst (reg_write_loop R canon (data ctx) regs vals sizes count 0 0)"
      by (auto simp: reg_write_batch_def)
    with reg_write_loop_err [of R canon "data ctx" regs vals sizes count 0 0]
    show ?thesis by simp
  qed
  from reg_read_err [of R env regid val sz] reg_write_err [of R canon env regid val sz setpc]
    lr lw cr cw
  show ?thesis by (intro conjI)
qed

theorem only_ok_or_invalid_argument_witness:
  "fst (reg_read m68k_regs env0 18 7 (Some 2)) = UC_ERR_ARG \<and>
   fst (reg_write m68k_regs id env0 18 7 (Some 2) 0) = UC_ERR_ARG \<and>
   fst (m68k_reg_read m68k_regs uc0 [1, 0] [7, 7] None 2) = UC_ERR_ARG \<and>
   fst (m68k_reg_write m68k_regs id uc0 [1, 0] [7, 7] None 2) = UC_ERR_ARG \<and>
   fst (m68k_context_reg_read m68k_regs ctx0 [1, 0] [7, 7] None 2) = UC_ERR_ARG \<and>
   fst (m68k_context_reg_write m68k_regs id ctx0 [1, 0] [7, 7] None 2) = UC_ERR_ARG"
proof -
  have a: "fst (reg_read m68k_regs env0 18 7 (Some 2)) \<noteq> UC_ERR_OK" by code_simp
  have b: "fst (reg_write m68k_regs id env0 18 7 (Some 2) 0) \<noteq> UC_ERR_OK" by code_simp
  have c: "fst (m68k_reg_read m68k_regs uc0 [1, 0] [7, 7] None 2) \<noteq> UC_ERR_OK" by code_simp
  have d: "fst (m68k_reg_write m68k_regs id uc0 [1, 0] [7, 7] None 2) \<noteq> UC_ERR_OK"
    by code_simp
  have e: "fst (m68k_context_reg_read m68k_regs ctx0 [1, 0] [7, 7] None 2) \<noteq> UC_ERR_OK"
    by code_simp
  have f: "fst (m68k_context_reg_write m68k_regs id ctx0 [1, 0] [7, 7] None 2) \<noteq> UC_ERR_OK"
    by code_simp
  from only_ok_or_invalid_argument [where R = m68k_regs and env = env0 and regid = 18
      and val = 7 and sz = "Some 2" and canon = id and setpc = 0 and uc = uc0
      and regs = "[1, 0]" and vals = "[7, 7]" and sizes = None and count = 2 and ctx = ctx0]
    a b c d e f
  show ?thesis by blast
qed

text \<open>
  Claim C4. For every defined register identifier (address range, data range, program
  counter, status register), a read or a write that declares a buffer size other than 4
  fails with the invalid-argument code and changes nothing: the accessors leave the
  buffer, the CPU state and the flag \<^verbatim>\<open>setpc\<close> as they were, and the entry points leave
  the engine and the snapshot as they were.
\<close>

theorem width_enforced:
  assumes defined: "in_aregs R regid \<or> in_dregs R regid \<or> regid = UC_M68K_REG_PC R \<or>
      regid = UC_M68K_REG_SR R"
    and n: "n \<noteq> 4"
  shows
  "reg_read R env regid val (Some n) = (UC_ERR_ARG, val) \<and>
   reg_write R canon env regid val (Some n) setpc = (UC_ERR_ARG, env, setpc) \<and>
   m68k_reg_read R uc [regid] [val] (Some [n]) 1 = (UC_ERR_ARG, [val]) \<and>
   m68k_reg_write R canon uc [regid] [val] (Some [n]) 1 = (UC_ERR_ARG, uc) \<and>
   m68k_context_reg_read R ctx [regid] [val] (Some [n]) 1 = (UC_ERR_ARG, [val]) \<and>
   m68k_context_reg_write R canon ctx [regid] [val] (Some [n]) 1 = (UC_ERR_ARG, ctx)"
proof -
  note c = CHECK_REG_TYPE_bad [OF n]
  have rd: "reg_read R env regid val (Some n) = (UC_ERR_ARG, val)" for env :: "'x CPUM68KState_scheme"
    using defined c
    by (cases R regid rule: regid_cases)
       (simp_all add: reg_read_aregs reg_read_dregs reg_read_pc reg_read_sr)
  have wr: "reg_write R canon env regid val (Some n) setpc = (UC_ERR_ARG, env, setpc)"
    for env :: "'x CPUM68KState_scheme" and setpc
    using defined c
    by (cases R regid rule: regid_cases)
       (simp_all add: reg_write_aregs reg_write_dregs reg_write_pc reg_write_sr)
  have sz: "size_at (Some [n]) 0 = Some n" by (simp add: size_at_def)
  have lr: "m68k_reg_read R uc [regid] [val] (Some [n]) 1 = (UC_ERR_ARG, [val])"
    by (simp add: m68k_reg_read_def reg_read_batch_single sz rd)
  have cr: "m68k_context_reg_read R ctx [regid] [val] (Some [n]) 1 = (UC_ERR_ARG, [val])"
    by (simp add: m68k_context_reg_read_def reg_read_batch_single sz rd)
  have lw: "m68k_reg_write R canon uc [regid] [val] (Some [n]) 1 = (UC_ERR_ARG, uc)"
    by (simp add: m68k_reg_write_def reg_write_batch_single sz wr)
  have cw: "m68k_context_reg_write R canon ctx [regid] [val] (Some [n]) 1 = (UC_ERR_ARG, ctx)"
    by (simp add: m68k_context_reg_write_def reg_write_batch_single sz wr)
  from rd wr lr lw cr cw show ?thesis by (intro conjI)
qed

theorem width_enforced_witness:
  "(in_aregs m68k_regs 17 \<or> in_dregs m68k_regs 17 \<or> 17 = UC_M68K_REG_PC m68k_regs \<or>
      17 = UC_M68K_REG_SR m68k_regs) \<and> (8::nat) \<noteq> 4 \<and>
   reg_read m68k_regs env0 17 7 (Some 8) = (UC_ERR_ARG, 7) \<and>
   reg_write m68k_regs id env0 17 7 (Some 8) 0 = (UC_ERR_ARG, env0, 0) \<and>
   m68k_reg_read m68k_regs uc0 [17] [7] (Some [8]) 1 = (UC_ERR_ARG, [7]) \<and>
   m68k_reg_write m68k_regs id uc0 [17] [7] (Some [8]) 1 = (UC_ERR_ARG, uc0) \<and>
   m68k_context_reg_read m68k_regs ctx0 [17] [7] (Some [8]) 1 = (UC_ERR_ARG, [7]) \<and>
   m68k_context_reg_write m68k_regs id ctx0 [17] [7] (Some [8]) 1 = (UC_ERR_ARG, ctx0)"
proof -
  have d: "in_aregs m68k_regs 17 \<or> in_dregs m68k_regs 17 \<or> 17 = UC_M68K_REG_PC m68k_regs \<or>
      17 = UC_M68K_REG_SR m68k_regs"
    by (simp add: m68k_regs_def)
  have n: "(8::nat) \<noteq> 4" by simp
  from width_enforced [OF d n, where env = env0 and val = 7 and canon = id and setpc = 0
      and uc = uc0 and ctx = ctx0] d n
  show ?thesis by simp
qed

text \<open>
  Claim C6. For every register identifier outside the address range, outside the data
  range and different from the program-counter and status-register identifiers, a read
  and a write fail with the invalid-argument code, whatever size is declared, on live
  state and on a context snapshot, and change nothing.
\<close>

theorem unknown_identifier:
  assumes "\<not> in_aregs R regid" and "\<not> in_dregs R regid"
    and "regid \<noteq> UC_M68K_REG_PC R" and "regid \<noteq> UC_M68K_REG_SR R"
  shows
  "reg_read R env regid val sz = (UC_ERR_ARG, val) \<and>
   reg_write R canon env regid val sz setpc = (UC_ERR_ARG, env, setpc) \<and>
   m68k_reg_read R uc [regid] [val] sizes 1 = (UC_ERR_ARG, [val]) \<and>
   m68k_reg_write R canon uc [regid] [val] sizes 1 = (UC_ERR_ARG, uc) \<and>
   m68k_context_reg_read R ctx [regid] [val] sizes 1 = (UC_ERR_ARG, [val]) \<and>
   m68k_context_reg_write R canon ctx [regid] [val] sizes 1 = (UC_ERR_ARG, ctx)"
proof -
  have rd: "reg_read R env regid val sz = (UC_ERR_ARG, val)"
    for env :: "'x CPUM68KState_scheme" and sz
    using assms by (rule reg_read_default)
  have wr: "reg_write R canon env regid val sz setpc = (UC_ERR_ARG, env, setpc)"
    for env :: "'x CPUM68KState_scheme" and sz setpc
    using assms by (rule reg_write_default)
  have lr: "m68k_reg_read R uc [regid] [val] sizes 1 = (UC_ERR_ARG, [val])"
    by (simp add: m68k_reg_read_def reg_read_batch_single rd)
  have cr: "m68k_context_reg_read R ctx [regid] [val] sizes 1 = (UC_ERR_ARG, [val])"
    by (simp add: m68k_context_reg_read_def reg_read_batch_single rd)
  have lw: "m68k_reg_write R canon uc [regid] [val] sizes 1 = (UC_ERR_ARG, uc)"
    by (simp add: m68k_reg_write_def reg_write_batch_single wr)
  have cw: "m68k_context_reg_write R canon ctx [regid] [val] sizes 1 = (UC_ERR_ARG, ctx)"
    by (simp add: m68k_context_reg_write_def reg_write_batch_single wr)
  from rd wr lr lw cr cw show ?thesis by (intro conjI)
qed

theorem unknown_identifier_witness:
  "\<not> in_aregs m68k_regs 19 \<and> \<not> in_dregs m68k_regs 19 \<and>
   19 \<noteq> UC_M68K_REG_PC m68k_regs \<and> 19 \<noteq> UC_M68K_REG_SR m68k_regs \<and>
   reg_read m68k_regs env0 19 7 (Some 4) = (UC_ERR_ARG, 7) \<and>
   reg_write m68k_regs id env0 19 7 (Some 4) 0 = (UC_ERR_ARG, env0, 0) \<and>
   m68k_reg_read m68k_regs uc0 [19] [7] (Some [4]) 1 = (UC_ERR_ARG, [7]) \<and>
   m68k_reg_write m68k_regs id uc0 [19] [7] (Some [4]) 1 = (UC_ERR_ARG, uc0) \<and>
   m68k_context_reg_read m68k_regs ctx0 [19] [7] (Some [4]) 1 = (UC_ERR_ARG, [7]) \<and>
   m68k_context_reg_write m68k_regs id ctx0 [19] [7] (Some [4]) 1 = (UC_ERR_ARG, ctx0)"
proof -
  have a: "\<not> in_aregs m68k_regs 19" by (simp add: in_aregs_def m68k_regs_def)
  have d: "\<not> in_dregs m68k_regs 19" by (simp add: in_dregs_def m68k_regs_def)
  have p: "19 \<noteq> UC_M68K_REG_PC m68k_regs" by (simp add: m68k_regs_def)
  have s: "19 \<noteq> UC_M68K_REG_SR m68k_regs" by (simp add: m68k_regs_def)
  from unknown_identifier [OF a d p s, where env = env0 and val = 7 and sz = "Some 4"
      and canon = id and setpc = 0 and uc = uc0 and sizes = "Some [4]" and ctx = ctx0] a d p s
  show ?thesis by simp
qed

text \<open>
  Claim C5. For an enumeration as the specification describes it and a CPU state with
  eight address and eight data registers: a write of V that succeeds, followed by a read
  of the same identifier with the same declared size, succeeds and yields V, or for the
  status register the canonicalized form of V. This holds for the accessors, on live
  state and on a context snapshot. When the canonicalization is idempotent, writing the
  value read back and reading again succeeds and yields the same value.
\<close>

theorem write_read_round_trip:
  assumes wf: "regs_wf R"
  shows
  "(env_wf env \<and> reg_write R canon env regid V sz setpc = (UC_ERR_OK, env', setpc') \<longrightarrow>
      reg_read R env' regid buf sz
        = (UC_ERR_OK, if regid = UC_M68K_REG_SR R then canon V else V)) \<and>
   (env_wf (cpu_env uc) \<and> m68k_reg_write R canon uc [regid] [V] sizes 1 = (UC_ERR_OK, uc') \<longrightarrow>
      m68k_reg_read R uc' [regid] [buf] sizes 1
        = (UC_ERR_OK, [if regid = UC_M68K_REG_SR R then canon V else V]) \<and>
      ((\<forall>v. canon (canon v) = canon v) \<longrightarrow>
         (\<exists>uc''. m68k_reg_write R canon uc' [regid]
                   [if regid = UC_M68K_REG_SR R then canon V else V] sizes 1
                   = (UC_ERR_OK, uc'') \<and>
                 m68k_reg_read R uc'' [regid] [buf] sizes 1
                   = (UC_ERR_OK, [if regid = UC_M68K_REG_SR R then canon V else V])))) \<and>
   (env_wf (data ctx) \<and>
    m68k_context_reg_write R canon ctx [regid] [V] sizes 1 = (UC_ERR_OK, ctx') \<longrightarrow>
      m68k_context_reg_read R ctx' [regid] [buf] sizes 1
        = (UC_ERR_OK, [if regid = UC_M68K_REG_SR R then canon V else V]) \<and>
      ((\<forall>v. canon (canon v) = canon v) \<longrightarrow>
         (\<exists>ctx''. m68k_context_reg_write R canon ctx' [regid]
                   [if regid = UC_M68K_REG_SR R then canon V else V] sizes 1
                   = (UC_ERR_OK, ctx'') \<and>
                 m68k_context_reg_read R ctx'' [regid] [buf] sizes 1
                   = (UC_ERR_OK, [if regid = UC_M68K_REG_SR R then canon V else V]))))"
proof -
  let ?W = "if regid = UC_M68K_REG_SR R then canon V else V"
  let ?sz = "size_at sizes 0"
  have acc: "reg_read R env' regid buf sz = (UC_ERR_OK, ?W)"
    if "env_wf env" and "reg_write R canon env regid V sz setpc = (UC_ERR_OK, env', setpc')"
    using reg_write_read [OF wf that] by simp
  have one: "reg_read_batch R e' [regid] [buf] sizes 1
      = (UC_ERR_OK, [if regid = UC_M68K_REG_SR R then canon X else X]) \<and> env_wf e'"
    if e: "env_wf e" and w: "reg_write_batch R canon e [regid] [X] sizes 1 0 = (UC_ERR_OK, e', s)"
    for e e' :: "'x CPUM68KState_scheme" and X s
  proof -
    from w have "reg_write R canon e regid X ?sz 0 = (UC_ERR_OK, e', s)"
      by (simp add: reg_write_batch_single)
    from reg_write_read [OF wf e this, of buf] show ?thesis
      by (simp add: reg_read_batch_single)
  qed
  have again: "\<exists>e'' s'. reg_write_batch R canon e' [regid] [Y] sizes 1 0 = (UC_ERR_OK, e'', s')"
    if w: "reg_write_batch R canon e [regid] [X] sizes 1 0 = (UC_ERR_OK, e', s)"
    for e e' :: "'x CPUM68KState_scheme" and X Y s
  proof -
    from w have "fst (reg_write R canon e regid X ?sz 0) = UC_ERR_OK"
      by (simp add: reg_write_batch_single)
    with reg_write_fst [of R canon e' regid Y ?sz 0 e X 0]
    have "fst (reg_write R canon e' regid Y ?sz 0) = UC_ERR_OK" by simp
    then show ?thesis
      by (cases "reg_write R canon e' regid Y ?sz 0") (simp add: reg_write_batch_single)
  qed
  have idem: "(if regid = UC_M68K_REG_SR R then canon ?W else ?W) = ?W"
    if "\<forall>v. canon (canon v) = canon v"
    using that by simp
  have live1: "m68k_reg_read R uc' [regid] [buf] sizes 1 = (UC_ERR_OK, [?W])"
    and live2: "(\<forall>v. canon (canon v) = canon v) \<longrightarrow>
         (\<exists>uc''. m68k_reg_write R canon uc' [regid] [?W] sizes 1 = (UC_ERR_OK, uc'') \<and>
                 m68k_reg_read R uc'' [regid] [buf] sizes 1 = (UC_ERR_OK, [?W]))"
    if e: "env_wf (cpu_env uc)"
      and w: "m68k_reg_write R canon uc [regid] [V] sizes 1 = (UC_ERR_OK, uc')"
  proof -
    from m68k_reg_write_env [of R canon uc "[regid]" "[V]" sizes 1] w obtain s where
      b: "reg_write_batch R canon (cpu_env uc) [regid] [V] sizes 1 0
        = (UC_ERR_OK, cpu_env uc', s)" by auto
    from one [OF e b] show r: "m68k_reg_read R uc' [regid] [buf] sizes 1 = (UC_ERR_OK, [?W])"
      by (simp add: m68k_reg_read_def)
    from one [OF e b] have e': "env_wf (cpu_env uc')" by simp
    show "(\<forall>v. canon (canon v) = canon v) \<longrightarrow>
         (\<exists>uc''. m68k_reg_write R canon uc' [regid] [?W] sizes 1 = (UC_ERR_OK, uc'') \<and>
                 m68k_reg_read R uc'' [regid] [buf] sizes 1 = (UC_ERR_OK, [?W]))"
    proof
      assume i: "\<forall>v. canon (canon v) = canon v"
      from again [OF b, of ?W] obtain e'' s' where
        b2: "reg_write_batch R canon (cpu_env uc') [regid] [?W] sizes 1 0
          = (UC_ERR_OK, e'', s')" by blast
      obtain uc'' where
        w2: "m68k_reg_write R canon uc' [regid] [?W] sizes 1 = (UC_ERR_OK, uc'')"
        and c2: "cpu_env uc'' = e''"
        using m68k_reg_write_result [OF b2]
        by (cases "s' = 0") (simp_all add: break_translation_loop_def)
      from one [OF e' b2] idem [OF i] c2
      have "m68k_reg_read R uc'' [regid] [buf] sizes 1 = (UC_ERR_OK, [?W])"
        by (simp add: m68k_reg_read_def)
      with w2 show "\<exists>uc''. m68k_reg_write R canon uc' [regid] [?W] sizes 1 = (UC_ERR_OK, uc'') \<and>
                 m68k_reg_read R uc'' [regid] [buf] sizes 1 = (UC_ERR_OK, [?W])"
        by blast
    qed
  qed
  have ctx1: "m68k_context_reg_read R ctx' [regid] [buf] sizes 1 = (UC_ERR_OK, [?W])"
    and ctx2: "(\<forall>v. canon (canon v) = canon v) \<longrightarrow>
         (\<exists>ctx''. m68k_context_reg_write R canon ctx' [regid] [?W] sizes 1
                    = (UC_ERR_OK, ctx'') \<and>
                 m68k_context_reg_read R ctx'' [regid] [buf] sizes 1 = (UC_ERR_OK, [?W]))"
    if e: "env_wf (data ctx)"
      and w: "m68k_context_reg_write R canon ctx [regid] [V] sizes 1 = (UC_ERR_OK, ctx')"
  proof -
    from m68k_context_reg_write_env [of R canon ctx "[regid]" "[V]" sizes 1] w obtain s where
      b: "reg_write_batch R canon (data ctx) [regid] [V] sizes 1 0
        = (UC_ERR_OK, data ctx', s)" by auto
    from one [OF e b]
    show r: "m68k_context_reg_read R ctx' [regid] [buf] sizes 1 = (UC_ERR_OK, [?W])"
      by (simp add: m68k_context_reg_read_def)
    from one [OF e b] have e': "env_wf (data ctx')" by simp
    show "(\<forall>v. canon (canon v) = canon v) \<longrightarrow>
         (\<exists>ctx''. m68k_context_reg_write R canon ctx' [regid] [?W] sizes 1
                    = (UC_ERR_OK, ctx'') \<and>
                 m68k_context_reg_read R ctx'' [regid] [buf] sizes 1 = (UC_ERR_OK, [?W]))"
    proof
      assume i: "\<forall>v. canon (canon v) = canon v"
      from again [OF b, of ?W] obtain e'' s' where
        b2: "reg_write_batch R canon (data ctx') [regid] [?W] sizes 1 0
          = (UC_ERR_OK, e'', s')" by blast
      then have w2: "m68k_context_reg_write R canon ctx' [regid] [?W] sizes 1
          = (UC_ERR_OK, ctx'\<lparr>data := e''\<rparr>)"
        by (simp add: m68k_context_reg_write_def)
      from one [OF e' b2] idem [OF i]
      have "m68k_context_reg_read R (ctx'\<lparr>data := e''\<rparr>) [regid] [buf] sizes 1
          = (UC_ERR_OK, [?W])"
        by (simp add: m68k_context_reg_read_def)
      with w2 show "\<exists>ctx''. m68k_context_reg_write R canon ctx' [regid] [?W] sizes 1
                    = (UC_ERR_OK, ctx'') \<and>
                 m68k_context_reg_read R ctx'' [regid] [buf] sizes 1 = (UC_ERR_OK, [?W])"
        by blast
    qed
  qed
  from acc live1 live2 ctx1 ctx2 show ?thesis by blast
qed

theorem write_read_round_trip_witness:
  "regs_wf m68k_regs \<and> env_wf env0 \<and> env_wf (cpu_env uc0) \<and> env_wf (data ctx0) \<and>
   (\<forall>v::uint32_t. take_bit 16 (take_bit 16 v) = take_bit 16 v) \<and>
   reg_write m68k_regs (take_bit 16) env0 17 0x12345 (Some 4) 0
     = (UC_ERR_OK, env0\<lparr>sr := 0x2345\<rparr>, 0) \<and>
   reg_read m68k_regs (env0\<lparr>sr := 0x2345\<rparr>) 17 0 (Some 4) = (UC_ERR_OK, 0x2345) \<and>
   m68k_reg_write m68k_regs (take_bit 16) uc0 [17] [0x12345] (Some [4]) 1
     = (UC_ERR_OK, uc0\<lparr>cpu_env := env0\<lparr>sr := 0x2345\<rparr>\<rparr>) \<and>
   m68k_reg_read m68k_regs (uc0\<lparr>cpu_env := env0\<lparr>sr := 0x2345\<rparr>\<rparr>) [17] [0] (Some [4]) 1
     = (UC_ERR_OK, [0x2345]) \<and>
   m68k_context_reg_write m68k_regs (take_bit 16) ctx0 [17] [0x12345] (Some [4]) 1
     = (UC_ERR_OK, ctx0\<lparr>data := env0\<lparr>sr := 0x2345\<rparr>\<rparr>) \<and>
   m68k_context_reg_read m68k_regs (ctx0\<lparr>data := env0\<lparr>sr := 0x2345\<rparr>\<rparr>) [17] [0] (Some [4]) 1
     = (UC_ERR_OK, [0x2345]) \<and>
   (\<exists>uc''. m68k_reg_write m68k_regs (take_bit 16) (uc0\<lparr>cpu_env := env0\<lparr>sr := 0x2345\<rparr>\<rparr>)
              [17] [0x2345] (Some [4]) 1 = (UC_ERR_OK, uc'') \<and>
           m68k_reg_read m68k_regs uc'' [17] [0] (Some [4]) 1 = (UC_ERR_OK, [0x2345])) \<and>
   (\<exists>ctx''. m68k_context_reg_write m68k_regs (take_bit 16)
              (ctx0\<lparr>data := env0\<lparr>sr := 0x2345\<rparr>\<rparr>) [17] [0x2345] (Some [4]) 1
              = (UC_ERR_OK, ctx'') \<and>
           m68k_context_reg_read m68k_regs ctx'' [17] [0] (Some [4]) 1
              = (UC_ERR_OK, [0x2345]))"
proof -
  have e: "env_wf env0" "env_wf (cpu_env uc0)" "env_wf (data ctx0)"
    by (simp_all add: env_wf_def env0_def uc0_def ctx0_def)
  have i: "\<forall>v::uint32_t. take_bit 16 (take_bit 16 v) = take_bit 16 v" by simp
  have c: "(if 17 = UC_M68K_REG_SR m68k_regs then take_bit 16 (0x12345::uint32_t) else 0x12345)
      = 0x2345"
    by (simp add: m68k_regs_def)
  have w: "reg_write m68k_regs (take_bit 16) env0 17 0x12345 (Some 4) 0
     = (UC_ERR_OK, env0\<lparr>sr := 0x2345\<rparr>, 0)"
    by code_simp
  have lw: "m68k_reg_write m68k_regs (take_bit 16) uc0 [17] [0x12345] (Some [4]) 1
     = (UC_ERR_OK, uc0\<lparr>cpu_env := env0\<lparr>sr := 0x2345\<rparr>\<rparr>)"
    by code_simp
  have cw: "m68k_context_reg_write m68k_regs (take_bit 16) ctx0 [17] [0x12345] (Some [4]) 1
     = (UC_ERR_OK, ctx0\<lparr>data := env0\<lparr>sr := 0x2345\<rparr>\<rparr>)"
    by code_simp
  note T = write_read_round_trip [OF regs_wf_m68k_regs, where canon = "take_bit 16"
      and env = env0 and regid = 17 and V = "0x12345" and sz = "Some 4" and setpc = 0
      and env' = "env0\<lparr>sr := 0x2345\<rparr>" and setpc' = 0 and buf = 0
      and uc = uc0 and sizes = "Some [4]" and uc' = "uc0\<lparr>cpu_env := env0\<lparr>sr := 0x2345\<rparr>\<rparr>"
      and ctx = ctx0 and ctx' = "ctx0\<lparr>data := env0\<lparr>sr := 0x2345\<rparr>\<rparr>", unfolded c]
  from T e w have r: "reg_read m68k_regs (env0\<lparr>sr := 0x2345\<rparr>) 17 0 (Some 4)
      = (UC_ERR_OK, 0x2345)" by blast
  from T e lw
  have lr: "m68k_reg_read m68k_regs (uc0\<lparr>cpu_env := env0\<lparr>sr := 0x2345\<rparr>\<rparr>) [17] [0]
      (Some [4]) 1 = (UC_ERR_OK, [0x2345])" by blast
  from T e cw
  have cr: "m68k_context_reg_read m68k_regs (ctx0\<lparr>data := env0\<lparr>sr := 0x2345\<rparr>\<rparr>) [17] [0]
      (Some [4]) 1 = (UC_ERR_OK, [0x2345])" by blast
  from T e lw i
  have l2: "\<exists>uc''. m68k_reg_write m68k_regs (take_bit 16)
              (uc0\<lparr>cpu_env := env0\<lparr>sr := 0x2345\<rparr>\<rparr>) [17] [0x2345] (Some [4]) 1
              = (UC_ERR_OK, uc'') \<and>
           m68k_reg_read m68k_regs uc'' [17] [0] (Some [4]) 1 = (UC_ERR_OK, [0x2345])"
    by blast
  from T e cw i
  have c2: "\<exists>ctx''. m68k_context_reg_write m68k_regs (take_bit 16)
              (ctx0\<lparr>data := env0\<lparr>sr := 0x2345\<rparr>\<rparr>) [17] [0x2345] (Some [4]) 1
              = (UC_ERR_OK, ctx'') \<and>
           m68k_context_reg_read m68k_regs ctx'' [17] [0] (Some [4]) 1
              = (UC_ERR_OK, [0x2345])"
    by blast
  from regs_wf_m68k_regs e i w r lw lr cw cr l2 c2 show ?thesis by (intro conjI)
qed

text \<open>
  Claim C7. After the reset hook, every address register, every data register and the
  program counter read as zero through the register interface, and the arrays and the
  program counter are zero. The status register, every other field of the CPU state, the
  per-mode translation caches, the quit flag, the count of loop breaks and every other
  field of the engine are as they were.
\<close>

theorem reset_semantics:
  assumes wf: "regs_wf R" and e: "env_wf (cpu_env uc)"
  shows
  "((in_aregs R regid \<or> in_dregs R regid \<or> regid = UC_M68K_REG_PC R) \<and>
    (sz = None \<or> sz = Some 4) \<longrightarrow>
      reg_read R (cpu_env (m68k_reg_reset uc)) regid buf sz = (UC_ERR_OK, 0)) \<and>
   ((in_aregs R regid \<or> in_dregs R regid \<or> regid = UC_M68K_REG_PC R) \<and>
    (sizes = None \<or> sizes = Some [4]) \<longrightarrow>
      m68k_reg_read R (m68k_reg_reset uc) [regid] [buf] sizes 1 = (UC_ERR_OK, [0])) \<and>
   aregs (cpu_env (m68k_reg_reset uc)) = replicate 8 0 \<and>
   dregs (cpu_env (m68k_reg_reset uc)) = replicate 8 0 \<and>
   pc (cpu_env (m68k_reg_reset uc)) = 0 \<and>
   sr (cpu_env (m68k_reg_reset uc)) = sr (cpu_env uc) \<and>
   CPUM68KState.more (cpu_env (m68k_reg_reset uc)) = CPUM68KState.more (cpu_env uc) \<and>
   cpu_neg_tlb (m68k_reg_reset uc) = cpu_neg_tlb uc \<and>
   quit_request (m68k_reg_reset uc) = quit_request uc \<and>
   break_translation_loop_calls (m68k_reg_reset uc) = break_translation_loop_calls uc \<and>
   uc_struct.more (m68k_reg_reset uc) = uc_struct.more uc"
proof -
  let ?env = "cpu_env (m68k_reg_reset uc)"
  from e have a: "aregs ?env = replicate 8 0" and d: "dregs ?env = replicate 8 0"
    and p: "pc ?env = 0"
    by (simp_all add: m68k_reg_reset_def env_wf_def Let_def)
  have rd: "reg_read R ?env regid buf sz = (UC_ERR_OK, 0)"
    if r: "in_aregs R regid \<or> in_dregs R regid \<or> regid = UC_M68K_REG_PC R"
      and s: "sz = None \<or> sz = Some 4" for sz
  proof (cases R regid rule: regid_cases)
    case aregs
    with aregs_index [OF wf aregs] a CHECK_REG_TYPE_ok [OF s] show ?thesis
      by (simp add: reg_read_aregs)
  next
    case dregs
    with dregs_index [OF wf dregs(2)] d CHECK_REG_TYPE_ok [OF s] show ?thesis
      by (simp add: reg_read_dregs)
  next
    case pc
    with p CHECK_REG_TYPE_ok [OF s] show ?thesis by (simp add: reg_read_pc)
  next
    case sr
    with r show ?thesis by simp
  next
    case default
    with r show ?thesis by simp
  qed
  have lr: "m68k_reg_read R (m68k_reg_reset uc) [regid] [buf] sizes 1 = (UC_ERR_OK, [0])"
    if r: "in_aregs R regid \<or> in_dregs R regid \<or> regid = UC_M68K_REG_PC R"
      and s: "sizes = None \<or> sizes = Some [4]"
  proof -
    from s have "size_at sizes 0 = None \<or> size_at sizes 0 = Some 4"
      by (auto simp: size_at_def)
    from rd [OF r this] show ?thesis
      by (simp add: m68k_reg_read_def reg_read_batch_single)
  qed
  have frame: "sr ?env = sr (cpu_env uc)"
    "CPUM68KState.more ?env = CPUM68KState.more (cpu_env uc)"
    "cpu_neg_tlb (m68k_reg_reset uc) = cpu_neg_tlb uc"
    "quit_request (m68k_reg_reset uc) = quit_request uc"
    "break_translation_loop_calls (m68k_reg_reset uc) = break_translation_loop_calls uc"
    "uc_struct.more (m68k_reg_reset uc) = uc_struct.more uc"
    by (simp_all add: m68k_reg_reset_def Let_def)
  from rd lr a d p frame show ?thesis by blast
qed

theorem reset_semantics_witness:
  "regs_wf m68k_regs \<and> env_wf (cpu_env uc1) \<and>
   reg_read m68k_regs (cpu_env uc1) 3 7 (Some 4) = (UC_ERR_OK, 0x33) \<and>
   reg_read m68k_regs (cpu_env (m68k_reg_reset uc1)) 3 7 (Some 4) = (UC_ERR_OK, 0) \<and>
   m68k_reg_read m68k_regs (m68k_reg_reset uc1) [3] [7] (Some [4]) 1 = (UC_ERR_OK, [0]) \<and>
   sr (cpu_env (m68k_reg_reset uc1)) = 0x2700 \<and>
   cpu_neg_tlb (m68k_reg_reset uc1) = [11, 22] \<and>
   quit_request (m68k_reg_reset uc1)"
proof -
  have e: "env_wf (cpu_env uc1)" by (simp add: env_wf_def uc1_def)
  have r: "in_aregs m68k_regs 3 \<or> in_dregs m68k_regs 3 \<or> 3 = UC_M68K_REG_PC m68k_regs"
    by (simp add: in_aregs_def m68k_regs_def)
  have b: "reg_read m68k_regs (cpu_env uc1) 3 7 (Some 4) = (UC_ERR_OK, 0x33)" by code_simp
  have u: "sr (cpu_env uc1) = 0x2700" "cpu_neg_tlb uc1 = [11, 22]" "quit_request uc1"
    by (simp_all add: uc1_def)
  have s: "Some 4 = None \<or> Some (4::nat) = Some 4"
    "Some [4] = None \<or> Some [4::nat] = Some [4]" by simp_all
  note T = reset_semantics [OF regs_wf_m68k_regs e, where regid = 3 and sz = "Some 4"
      and sizes = "Some [4]" and buf = 7]
  from T r s have z: "reg_read m68k_regs (cpu_env (m68k_reg_reset uc1)) 3 7 (Some 4)
      = (UC_ERR_OK, 0)" by blast
  from T r s have l: "m68k_reg_read m68k_regs (m68k_reg_reset uc1) [3] [7] (Some [4]) 1
      = (UC_ERR_OK, [0])" by blast
  from T u have f: "sr (cpu_env (m68k_reg_reset uc1)) = 0x2700"
    "cpu_neg_tlb (m68k_reg_reset uc1) = [11, 22]" "quit_request (m68k_reg_reset uc1)"
    by simp_all
  from regs_wf_m68k_regs e b z l f show ?thesis by (intro conjI)
qed

text \<open>
  Claim C8. The set-program-counter hook changes the program-counter field and nothing
  else: the register arrays, the status register, every other field of the CPU state, the
  translation caches, the quit flag and the count of loop breaks are as they were. A
  write of the program-counter identifier through the register interface that succeeds
  raises the quit flag and breaks the translation loop once.
\<close>

theorem set_pc_frame:
  "pc (cpu_env (m68k_set_pc uc v)) = ucast v \<and>
   aregs (cpu_env (m68k_set_pc uc v)) = aregs (cpu_env uc) \<and>
   dregs (cpu_env (m68k_set_pc uc v)) = dregs (cpu_env uc) \<and>
   sr (cpu_env (m68k_set_pc uc v)) = sr (cpu_env uc) \<and>
   CPUM68KState.more (cpu_env (m68k_set_pc uc v)) = CPUM68KState.more (cpu_env uc) \<and>
   cpu_neg_tlb (m68k_set_pc uc v) = cpu_neg_tlb uc \<and>
   quit_request (m68k_set_pc uc v) = quit_request uc \<and>
   break_translation_loop_calls (m68k_set_pc uc v) = break_translation_loop_calls uc \<and>
   uc_struct.more (m68k_set_pc uc v) = uc_struct.more uc \<and>
   (regs_wf R \<and>
    m68k_reg_write R canon uc [UC_M68K_REG_PC R] [w] sizes 1 = (UC_ERR_OK, uc') \<longrightarrow>
      pc (cpu_env uc') = w \<and> quit_request uc' \<and>
      break_translation_loop_calls uc' = Suc (break_translation_loop_calls uc))"
proof -
  have reg: "pc (cpu_env uc') = w \<and> quit_request uc' \<and>
      break_translation_loop_calls uc' = Suc (break_translation_loop_calls uc)"
    if wf: "regs_wf R"
      and res: "m68k_reg_write R canon uc [UC_M68K_REG_PC R] [w] sizes 1 = (UC_ERR_OK, uc')"
  proof -
    from wf have na: "\<not> in_aregs R (UC_M68K_REG_PC R)" and nd: "\<not> in_dregs R (UC_M68K_REG_PC R)"
      by (simp_all add: regs_wf_def)
    note w = reg_write_pc [OF na nd refl, of canon "cpu_env uc" w "size_at sizes 0" 0]
    from CHECK_REG_TYPE_cases [of 4 "size_at sizes 0"] show ?thesis
    proof
      assume "CHECK_REG_TYPE 4 (size_at sizes 0) = Inl UC_ERR_ARG"
      with w res show ?thesis
        by (simp add: m68k_reg_write_def reg_write_batch_single)
    next
      assume "CHECK_REG_TYPE 4 (size_at sizes 0) = Inr UC_ERR_OK"
      with w res show ?thesis
        by (auto simp: m68k_reg_write_def reg_write_batch_single break_translation_loop_def)
    qed
  qed
  have frame: "pc (cpu_env (m68k_set_pc uc v)) = ucast v"
    "aregs (cpu_env (m68k_set_pc uc v)) = aregs (cpu_env uc)"
    "dregs (cpu_env (m68k_set_pc uc v)) = dregs (cpu_env uc)"
    "sr (cpu_env (m68k_set_pc uc v)) = sr (cpu_env uc)"
    "CPUM68KState.more (cpu_env (m68k_set_pc uc v)) = CPUM68KState.more (cpu_env uc)"
    "cpu_neg_tlb (m68k_set_pc uc v) = cpu_neg_tlb uc"
    "quit_request (m68k_set_pc uc v) = quit_request uc"
    "break_translation_loop_calls (m68k_set_pc uc v) = break_translation_loop_calls uc"
    "uc_struct.more (m68k_set_pc uc v) = uc_struct.more uc"
    by (simp_all add: m68k_set_pc_def)
  from frame reg show ?thesis by blast
qed

theorem set_pc_frame_witness:
  "regs_wf m68k_regs \<and>
   m68k_set_pc uc0 0x40 = uc0\<lparr>cpu_env := env0\<lparr>pc := 0x40\<rparr>\<rparr> \<and>
   \<not> quit_request (m68k_set_pc uc0 0x40) \<and>
   break_translation_loop_calls (m68k_set_pc uc0 0x40) = 0 \<and>
   m68k_reg_write m68k_regs id uc0 [UC_M68K_REG_PC m68k_regs] [0x40] (Some [4]) 1
     = (UC_ERR_OK, uc0\<lparr>cpu_env := env0\<lparr>pc := 0x40\<rparr>, quit_request := True,
          break_translation_loop_calls := 1\<rparr>) \<and>
   quit_request (uc0\<lparr>cpu_env := env0\<lparr>pc := 0x40\<rparr>, quit_request := True,
          break_translation_loop_calls := 1\<rparr>) \<and>
   break_translation_loop_calls (uc0\<lparr>cpu_env := env0\<lparr>pc := 0x40\<rparr>, quit_request := True,
          break_translation_loop_calls := 1\<rparr>) = Suc (break_translation_loop_calls uc0)"
proof -
  have s: "m68k_set_pc uc0 0x40 = uc0\<lparr>cpu_env := env0\<lparr>pc := 0x40\<rparr>\<rparr>"
    by (simp add: m68k_set_pc_def uc0_def)
  have q: "\<not> quit_request uc0" "break_translation_loop_calls uc0 = 0"
    by (simp_all add: uc0_def)
  have w: "m68k_reg_write m68k_regs id uc0 [UC_M68K_REG_PC m68k_regs] [0x40] (Some [4]) 1
     = (UC_ERR_OK, uc0\<lparr>cpu_env := env0\<lparr>pc := 0x40\<rparr>, quit_request := True,
          break_translation_loop_calls := 1\<rparr>)"
    by code_simp
  from set_pc_frame [where uc = uc0 and v = "0x40" and R = m68k_regs and canon = id
      and w = "0x40" and sizes = "Some [4]"
      and uc' = "uc0\<lparr>cpu_env := env0\<lparr>pc := 0x40\<rparr>, quit_request := True,
          break_translation_loop_calls := 1\<rparr>"] regs_wf_m68k_regs s q w
  show ?thesis by simp
qed

text \<open>
  Claim C9. When a live batch write fails, the quit flag and the count of loop breaks are
  as they were before the call, whatever the entries before the failing one wrote, the
  program counter included. A call breaks the translation loop at most once, and when it
  does, the call returned the success code, the quit flag is raised, and every entry of
  the batch succeeded in the state it was tried in.
\<close>

theorem failed_batch_no_restart:
  assumes res: "m68k_reg_write R canon uc regs vals sizes count = (err, uc')"
  shows
  "(err \<noteq> UC_ERR_OK \<longrightarrow>
      quit_request uc' = quit_request uc \<and>
      break_translation_loop_calls uc' = break_translation_loop_calls uc) \<and>
   (break_translation_loop_calls uc' = break_translation_loop_calls uc \<or>
    break_translation_loop_calls uc' = Suc (break_translation_loop_calls uc)) \<and>
   (break_translation_loop_calls uc' = Suc (break_translation_loop_calls uc) \<longrightarrow>
      err = UC_ERR_OK \<and> quit_request uc' \<and>
      (\<forall>k. int k < count \<longrightarrow>
         (\<exists>env_k s_k.
            reg_write_batch R canon (cpu_env uc) regs vals sizes (int k) 0
              = (UC_ERR_OK, env_k, s_k) \<and>
            fst (reg_write R canon env_k (regs ! k) (vals ! k) (size_at sizes k) s_k)
              = UC_ERR_OK)))"
proof -
  obtain e env' s where
    b: "reg_write_batch R canon (cpu_env uc) regs vals sizes count 0 = (e, env', s)"
    by (metis prod_cases3)
  note r = m68k_reg_write_result [OF b]
  show ?thesis
  proof (cases "e = UC_ERR_OK")
    case False
    with r res have "err = e" and "uc' = uc\<lparr>cpu_env := env'\<rparr>" by simp_all
    with False show ?thesis by simp
  next
    case True
    with b have ok: "reg_write_batch R canon (cpu_env uc) regs vals sizes count 0
      = (UC_ERR_OK, env', s)" by simp
    have entries: "\<forall>k. int k < count \<longrightarrow>
         (\<exists>env_k s_k.
            reg_write_batch R canon (cpu_env uc) regs vals sizes (int k) 0
              = (UC_ERR_OK, env_k, s_k) \<and>
            fst (reg_write R canon env_k (regs ! k) (vals ! k) (size_at sizes k) s_k)
              = UC_ERR_OK)"
      using reg_write_batch_ok_entries [OF ok] by blast
    show ?thesis
    proof (cases "s = 0")
      case True
      with r res \<open>e = UC_ERR_OK\<close> have "err = UC_ERR_OK" and "uc' = uc\<lparr>cpu_env := env'\<rparr>"
        by simp_all
      then show ?thesis by simp
    next
      case False
      with r res \<open>e = UC_ERR_OK\<close> have "err = UC_ERR_OK"
        and "uc' = break_translation_loop (uc\<lparr>cpu_env := env', quit_request := True\<rparr>)"
        by simp_all
      with entries show ?thesis by (simp add: break_translation_loop_def)
    qed
  qed
qed

theorem failed_batch_no_restart_witness:
  "m68k_reg_write m68k_regs id uc0 [18, 1, 19] [0x40, 7, 9] (Some [4, 4, 4]) 3
     = (UC_ERR_ARG, uc0\<lparr>cpu_env := env0\<lparr>pc := 0x40, aregs := [7, 0, 0, 0, 0, 0, 0, 0]\<rparr>\<rparr>) \<and>
   UC_ERR_ARG \<noteq> UC_ERR_OK \<and>
   pc (cpu_env (uc0\<lparr>cpu_env := env0\<lparr>pc := 0x40, aregs := [7, 0, 0, 0, 0, 0, 0, 0]\<rparr>\<rparr>)) = 0x40 \<and>
   quit_request (uc0\<lparr>cpu_env := env0\<lparr>pc := 0x40, aregs := [7, 0, 0, 0, 0, 0, 0, 0]\<rparr>\<rparr>)
     = quit_request uc0 \<and>
   break_translation_loop_calls
     (uc0\<lparr>cpu_env := env0\<lparr>pc := 0x40, aregs := [7, 0, 0, 0, 0, 0, 0, 0]\<rparr>\<rparr>)
     = break_translation_loop_calls uc0"
proof -
  have w: "m68k_reg_write m68k_regs id uc0 [18, 1, 19] [0x40, 7, 9] (Some [4, 4, 4]) 3
     = (UC_ERR_ARG, uc0\<lparr>cpu_env := env0\<lparr>pc := 0x40, aregs := [7, 0, 0, 0, 0, 0, 0, 0]\<rparr>\<rparr>)"
    by code_simp
  have ne: "UC_ERR_ARG \<noteq> UC_ERR_OK" by simp
  have p: "pc (cpu_env (uc0\<lparr>cpu_env := env0\<lparr>pc := 0x40,
      aregs := [7, 0, 0, 0, 0, 0, 0, 0]\<rparr>\<rparr>)) = 0x40" by simp
  from failed_batch_no_restart [OF w] ne
  have "quit_request (uc0\<lparr>cpu_env := env0\<lparr>pc := 0x40, aregs := [7, 0, 0, 0, 0, 0, 0, 0]\<rparr>\<rparr>)
     = quit_request uc0 \<and>
   break_translation_loop_calls
     (uc0\<lparr>cpu_env := env0\<lparr>pc := 0x40, aregs := [7, 0, 0, 0, 0, 0, 0, 0]\<rparr>\<rparr>)
     = break_translation_loop_calls uc0" by blast
  with w ne p show ?thesis by (intro conjI) simp_all
qed

text \<open>
  Claim C10. The direct program-counter hooks truncate to 32 bits: for every 64-bit value
  v the set hook stores v mod 2^32 in the program-counter field, the get hook then
  returns v mod 2^32, and that is not v when v does not fit in 32 bits.
\<close>

theorem set_get_pc_truncates:
  "unat (pc (cpu_env (m68k_set_pc uc v))) = unat v mod 2 ^ 32 \<and>
   unat (m68k_get_pc (m68k_set_pc uc v)) = unat v mod 2 ^ 32 \<and>
   (2 ^ 32 \<le> unat v \<longrightarrow> m68k_get_pc (m68k_set_pc uc v) \<noteq> v)"
proof -
  have p: "unat (pc (cpu_env (m68k_set_pc uc v))) = unat v mod 2 ^ 32"
    by (simp add: m68k_set_pc_def unsigned_ucast_eq take_bit_eq_mod)
  have "unat (pc (cpu_env (m68k_set_pc uc v))) < 2 ^ 32"
    using unsigned_less [of "pc (cpu_env (m68k_set_pc uc v))"] by simp
  then have "unat (pc (cpu_env (m68k_set_pc uc v))) < 2 ^ 64"
    by (rule less_trans) simp
  then have "unat (m68k_get_pc (m68k_set_pc uc v)) = unat (pc (cpu_env (m68k_set_pc uc v)))"
    by (simp add: m68k_get_pc_def unsigned_ucast_eq take_bit_nat_eq_self)
  with p have g: "unat (m68k_get_pc (m68k_set_pc uc v)) = unat v mod 2 ^ 32" by simp
  have "m68k_get_pc (m68k_set_pc uc v) \<noteq> v" if "2 ^ 32 \<le> unat v"
  proof
    assume "m68k_get_pc (m68k_set_pc uc v) = v"
    with g have "unat v = unat v mod 2 ^ 32" by simp
    moreover have "unat v mod 2 ^ 32 < 2 ^ 32" by simp
    ultimately show False using that by linarith
  qed
  with p g show ?thesis by blast
qed

theorem set_get_pc_truncates_witness:
  "(2::nat) ^ 32 \<le> unat (0x100000004 :: uint64_t) \<and>
   pc (cpu_env (m68k_set_pc uc0 0x100000004)) = 4 \<and>
   m68k_get_pc (m68k_set_pc uc0 0x100000004) = 4 \<and>
   m68k_get_pc (m68k_set_pc uc0 0x100000004) \<noteq> 0x100000004"
proof -
  have h: "(2::nat) ^ 32 \<le> unat (0x100000004 :: uint64_t)" by simp
  have a: "pc (cpu_env (m68k_set_pc uc0 0x100000004)) = 4"
    by (simp add: m68k_set_pc_def)
  have b: "m68k_get_pc (m68k_set_pc uc0 0x100000004) = 4"
    by (simp add: m68k_get_pc_def m68k_set_pc_def)
  from set_get_pc_truncates [of uc0 "0x100000004"] h a b show ?thesis by blast
qed

end
